theory Spec2Isabelle
  imports Main "HOL-Library.Word" "HOL-Library.Sublist"
begin

unbundle bit_operations_syntax

section \<open>The warmup command of JuiceFS (cmd/warmup.go)\<close>

text \<open>
  The command collects paths from the command line and from an optional file, finds the
  mount point that holds the first path, and sends the paths, relative to the mount
  point, to the control file of the mount in batches of at most \<open>batchMax\<close> entries.
  Go strings are byte sequences: a \<open>string\<close> here is the list of its bytes, and
  \<open>length\<close> is Go's \<open>len\<close>.
\<close>

subsection \<open>Bytes and strings\<close>

type_synonym byte = "8 word"

definition byte_of_char :: "char \<Rightarrow> byte" where
  \<comment> \<open>one element of the conversion \<open>[]byte(paths)\<close>\<close>
  "byte_of_char c = word_of_nat (of_char c)"

definition char_of_byte :: "byte \<Rightarrow> char" where
  "char_of_byte b = char_of (unat b)"

abbreviation nl :: char where
  "nl \<equiv> CHR 0x0A"

abbreviation newline :: string where
  "newline \<equiv> [nl]"

text \<open>\<open>strings.Join(elems, sep)\<close>.\<close>

fun Join :: "string list \<Rightarrow> string \<Rightarrow> string" where
  "Join [] sep = []"
| "Join [x] sep = x"
| "Join (x # y # ys) sep = x @ sep @ Join (y # ys) sep"

text \<open>
  \<open>strings.Split(s, sep)\<close> for a separator of one byte: the empty string splits into one
  empty element.
\<close>

fun Split :: "string \<Rightarrow> char \<Rightarrow> string list" where
  "Split [] c = [[]]"
| "Split (x # xs) c =
     (if x = c then [] # Split xs c else (x # hd (Split xs c)) # tl (Split xs c))"

text \<open>\<open>strings.HasPrefix(s, prefix)\<close>.\<close>

definition HasPrefix :: "string \<Rightarrow> string \<Rightarrow> bool" where
  "HasPrefix s pre = (length pre \<le> length s \<and> take (length pre) s = pre)"

subsection \<open>Paths: \<open>filepath.Clean\<close> and \<open>filepath.Dir\<close> on Unix\<close>

text \<open>
  \<open>filepath.Clean\<close> works on the elements between separators: it drops empty elements
  and \<open>.\<close>, lets \<open>..\<close> remove the element before it, drops a \<open>..\<close> that would climb
  above the root of a rooted path, and keeps it at the front of a path that is not rooted.
  The empty result of a path that is not rooted is \<open>.\<close>.
\<close>

abbreviation slash :: char where
  "slash \<equiv> CHR ''/''"

definition rooted :: "string \<Rightarrow> bool" where
  "rooted p = (p \<noteq> [] \<and> hd p = slash)"

fun clean_rooted :: "string list \<Rightarrow> string \<Rightarrow> string list" where
  "clean_rooted st e =
     (if e = [] \<or> e = ''.'' then st
      else if e = ''..'' then butlast st
      else st @ [e])"

fun clean_relative :: "string list \<Rightarrow> string \<Rightarrow> string list" where
  "clean_relative st e =
     (if e = [] \<or> e = ''.'' then st
      else if e = ''..'' then
        (if st \<noteq> [] \<and> last st \<noteq> ''..'' then butlast st else st @ [e])
      else st @ [e])"

definition Clean :: "string \<Rightarrow> string" where
  "Clean path =
     (if path = [] then ''.''
      else if hd path = slash then
        slash # Join (foldl clean_rooted [] (Split (tl path) slash)) [slash]
      else
        (let st = foldl clean_relative [] (Split path slash)
         in if st = [] then ''.'' else Join st [slash]))"

text \<open>
  \<open>filepath.Dir(path)\<close>: the path up to and including its last separator, cleaned.
\<close>

definition Dir :: "string \<Rightarrow> string" where
  "Dir path = Clean (rev (dropWhile (\<lambda>c. c \<noteq> slash) (rev path)))"

subsection \<open>Outcomes and the trace of external calls\<close>

text \<open>
  \<open>logger.Fatalf\<close> ends the process: every call of it is a value of \<open>fatal\<close>, and so is a
  run-time panic of Go (an index or a slice bound out of range).
\<close>

datatype fatal =
    FailedToOpenFile string
  | ReadingFileFailed string
  | FailedToGetAbs string
  | FailedToStat string
  | FailedToLookupInode string
  | NotInsideJuiceFS string
  | FailedToOpenControlFile string
  | WriteMessage
  | ReadMessage nat
  | WarmUpFailed byte
  | Panic

datatype info = NothingToWarmUp | WarmUpInBackground nat

text \<open>
  The calls the command makes to the outside, in the order it makes them: files, the
  control file, the logger and the progress bar.
\<close>

datatype event =
    EvOpen string
  | EvAbs string
  | EvStat string
  | EvGetFileInode string
  | EvOpenController string
  | EvWrite "byte list"
  | EvRead
  | EvWarn string string
  | EvInfo info
  | EvIncrBy nat
  | EvDone

type_synonym trace = "event list"

fun is_write :: "event \<Rightarrow> bool" where
  "is_write (EvWrite f) = True"
| "is_write e = False"

fun is_read :: "event \<Rightarrow> bool" where
  "is_read EvRead = True"
| "is_read e = False"

fun frames :: "trace \<Rightarrow> byte list list" where
  "frames [] = []"
| "frames (EvWrite f # tr) = f # frames tr"
| "frames (e # tr) = frames tr"

fun warned :: "trace \<Rightarrow> string list" where
  "warned [] = []"
| "warned (EvWarn p m # tr) = p # warned tr"
| "warned (e # tr) = warned tr"

fun warmed :: "trace \<Rightarrow> nat" where
  "warmed [] = 0"
| "warmed (EvIncrBy n # tr) = n + warmed tr"
| "warmed (e # tr) = warmed tr"

definition nwrites :: "trace \<Rightarrow> nat" where
  "nwrites tr = length (filter is_write tr)"

definition nreads :: "trace \<Rightarrow> nat" where
  "nreads tr = length (filter is_read tr)"

subsection \<open>The environment\<close>

datatype byte_order = BigEndian | LittleEndian

text \<open>
  What the command gets from outside this file. The first two fields are declarations of
  other packages of the repository: the byte order of \<open>utils.Buffer\<close> and the command
  code \<open>meta.FillCache\<close>. The others are the operating system and the control file:
  \<^item> \<open>os_Open name\<close>: \<open>None\<close> when the file cannot be opened, otherwise the lines the
    scanner yields and whether \<open>scanner.Err()\<close> is an error;
  \<^item> \<open>filepath_Abs\<close>, \<open>os_Stat\<close> (is the path a directory), \<open>GetFileInode\<close>: \<open>None\<close> is an
    error;
  \<^item> \<open>openController mp\<close>: whether a control file was opened (not \<open>nil\<close>);
  \<^item> \<open>cf_Write k\<close>: whether the \<open>k\<close>-th \<open>Write\<close> on the control file returns an error;
  \<^item> \<open>cf_Read k\<close>: what the \<open>k\<close>-th \<open>Read\<close> of one byte returns: the count \<open>n\<close>, the byte
    left in the buffer, and whether \<open>err\<close> is not \<open>nil\<close>.
\<close>

record env =
  buffer_endian :: byte_order
  meta_FillCache :: "32 word"
  os_Open :: "string \<Rightarrow> (string list \<times> bool) option"
  strings_TrimSpace :: "string \<Rightarrow> string"
  filepath_Abs :: "string \<Rightarrow> string option"
  os_Stat :: "string \<Rightarrow> bool option"
  GetFileInode :: "string \<Rightarrow> 64 word option"
  openController :: "string \<Rightarrow> bool"
  cf_Write :: "nat \<Rightarrow> bool"
  cf_Read :: "nat \<Rightarrow> nat \<times> byte \<times> bool"

subsection \<open>\<open>utils.Buffer\<close>\<close>

text \<open>
  Modelled from the spec: \<open>utils.Buffer\<close> (package \<open>pkg/utils\<close>) is not among the sources.
  The frame layout of the specification is a sequence of fields written one after the
  other, so the buffer is a byte array of the size given to \<open>NewBuffer\<close> with a write
  offset; every \<open>Put\<close> writes at the offset and advances it. Go checks slice bounds, so a
  \<open>Put\<close> past the end of the array is a panic. The byte order of the integer fields is
  the parameter \<open>endian\<close>.
\<close>

record Buffer =
  endian :: byte_order
  off :: nat
  buf :: "byte list"

definition enc16 :: "byte_order \<Rightarrow> 16 word \<Rightarrow> byte list" where
  "enc16 e v =
     (case e of
        BigEndian \<Rightarrow> [ucast (drop_bit 8 v), ucast v]
      | LittleEndian \<Rightarrow> [ucast v, ucast (drop_bit 8 v)])"

definition enc32 :: "byte_order \<Rightarrow> 32 word \<Rightarrow> byte list" where
  "enc32 e v =
     (case e of
        BigEndian \<Rightarrow>
          [ucast (drop_bit 24 v), ucast (drop_bit 16 v), ucast (drop_bit 8 v), ucast v]
      | LittleEndian \<Rightarrow>
          [ucast v, ucast (drop_bit 8 v), ucast (drop_bit 16 v), ucast (drop_bit 24 v)])"

fun dec16 :: "byte_order \<Rightarrow> byte list \<Rightarrow> 16 word" where
  "dec16 BigEndian [a, b] = push_bit 8 (ucast a) OR ucast b"
| "dec16 LittleEndian [a, b] = push_bit 8 (ucast b) OR ucast a"
| "dec16 e bs = 0"

fun dec32 :: "byte_order \<Rightarrow> byte list \<Rightarrow> 32 word" where
  "dec32 BigEndian [a, b, c, d] =
     push_bit 24 (ucast a) OR push_bit 16 (ucast b) OR push_bit 8 (ucast c) OR ucast d"
| "dec32 LittleEndian [a, b, c, d] =
     push_bit 24 (ucast d) OR push_bit 16 (ucast c) OR push_bit 8 (ucast b) OR ucast a"
| "dec32 e bs = 0"

definition NewBuffer :: "byte_order \<Rightarrow> 32 word \<Rightarrow> Buffer" where
  "NewBuffer e sz = \<lparr>endian = e, off = 0, buf = replicate (unat sz) 0\<rparr>"

definition put_bytes :: "byte list \<Rightarrow> Buffer \<Rightarrow> fatal + Buffer" where
  "put_bytes v b =
     (if off b + length v \<le> length (buf b)
      then Inr (b\<lparr>buf := take (off b) (buf b) @ v @ drop (off b + length v) (buf b),
                 off := off b + length v\<rparr>)
      else Inl Panic)"

definition Put8 :: "byte \<Rightarrow> Buffer \<Rightarrow> fatal + Buffer" where
  "Put8 v b = put_bytes [v] b"

definition Put16 :: "16 word \<Rightarrow> Buffer \<Rightarrow> fatal + Buffer" where
  "Put16 v b = put_bytes (enc16 (endian b) v) b"

definition Put32 :: "32 word \<Rightarrow> Buffer \<Rightarrow> fatal + Buffer" where
  "Put32 v b = put_bytes (enc32 (endian b) v) b"

definition Put :: "byte list \<Rightarrow> Buffer \<Rightarrow> fatal + Buffer" where
  "Put v b = put_bytes v b"

definition Bytes :: "Buffer \<Rightarrow> byte list" where
  "Bytes b = buf b"

definition and_then :: "fatal + 'a \<Rightarrow> ('a \<Rightarrow> fatal + 'b) \<Rightarrow> fatal + 'b" where
  "and_then r f = (case r of Inl e \<Rightarrow> Inl e | Inr x \<Rightarrow> f x)"

subsection \<open>\<open>sendCommand\<close>\<close>

definition batchMax :: nat where
  "batchMax = 10240"

text \<open>
  Lines 34 to 45: the bytes of the frame for \<open>batch[:count]\<close>. The slice expression
  panics when \<open>count\<close> exceeds the capacity of the array, which is its length for the
  arrays of this command; \<open>count\<close> is an index of the callers and never negative.
  The conversions \<open>uint32(len(paths))\<close> and \<open>uint16(threads)\<close> keep the low bits, and
  \<open>threads\<close> has the 64 bits of Go's \<open>uint\<close>.
\<close>

definition frame :: "env \<Rightarrow> string list \<Rightarrow> nat \<Rightarrow> 64 word \<Rightarrow> bool \<Rightarrow> fatal + byte list" where
  "frame env batch count threads background =
     (if length batch < count then Inl Panic
      else
        let paths = Join (take count batch) newline;
            back = (if background then 1 else 0 :: byte);
            n = (word_of_nat (length paths) :: 32 word);
            wb = NewBuffer (buffer_endian env) (8 + 4 + 3 + n)
        in and_then (Put32 (meta_FillCache env) wb) (\<lambda>wb.
           and_then (Put32 (4 + 3 + n) wb) (\<lambda>wb.
           and_then (Put32 n wb) (\<lambda>wb.
           and_then (Put (map byte_of_char paths) wb) (\<lambda>wb.
           and_then (Put16 (ucast threads) wb) (\<lambda>wb.
           and_then (Put8 back wb) (\<lambda>wb.
           Inr (Bytes wb))))))))"

text \<open>
  Lines 46 to 59: the frame is written in one call; in the background the function
  returns after the write, otherwise it reads one byte and checks it.
\<close>

definition sendCommand ::
  "env \<Rightarrow> trace \<Rightarrow> string list \<Rightarrow> nat \<Rightarrow> 64 word \<Rightarrow> bool \<Rightarrow> trace \<times> (fatal + unit)" where
  "sendCommand env tr batch count threads background =
     (case frame env batch count threads background of
        Inl e \<Rightarrow> (tr, Inl e)
      | Inr bytes \<Rightarrow>
          let tr1 = tr @ [EvWrite bytes] in
          if cf_Write env (nwrites tr) then (tr1, Inl WriteMessage)
          else if background then (tr1 @ [EvInfo (WarmUpInBackground count)], Inr ())
          else
            (case cf_Read env (nreads tr1) of (n, b, err) \<Rightarrow>
               let tr2 = tr1 @ [EvRead] in
               if err \<or> n \<noteq> 1 then (tr2, Inl (ReadMessage n))
               else if b \<noteq> 0 then (tr2, Inl (WarmUpFailed b))
               else (tr2, Inr ())))"


subsection \<open>The batching loop of \<open>warmup\<close>\<close>

text \<open>
  Lines 127 to 140, with the capacity \<open>K\<close> of the array in place of the constant
  \<open>batchMax\<close>. The array \<open>batch\<close> keeps its length; \<open>index\<close> counts the entries of the
  current batch. An assignment past the end of the array is a panic.
\<close>

fun batch_loop ::
  "env \<Rightarrow> nat \<Rightarrow> string \<Rightarrow> 64 word \<Rightarrow> bool \<Rightarrow> string list \<Rightarrow> string list \<Rightarrow> nat \<Rightarrow> trace
     \<Rightarrow> trace \<times> (fatal + string list \<times> nat)" where
  "batch_loop env K mp threads background [] batch index tr = (tr, Inr (batch, index))"
| "batch_loop env K mp threads background (path # paths) batch index tr =
     (if HasPrefix path mp then
        (if length batch \<le> index then (tr, Inl Panic)
         else
           let batch' = batch[index := drop (length mp) path];
               index' = index + 1
           in if K \<le> index' then
                (case sendCommand env tr batch' index' threads background of
                   (tr', Inl e) \<Rightarrow> (tr', Inl e)
                 | (tr', Inr u) \<Rightarrow>
                     batch_loop env K mp threads background paths batch' 0
                       (tr' @ [EvIncrBy index']))
              else batch_loop env K mp threads background paths batch' index' tr)
      else batch_loop env K mp threads background paths batch index
             (tr @ [EvWarn path mp]))"

text \<open>Lines 141 to 145: the last batch, when it is not empty, and the end of the progress bar.\<close>

definition finish ::
  "env \<Rightarrow> 64 word \<Rightarrow> bool \<Rightarrow> trace \<times> (fatal + string list \<times> nat) \<Rightarrow> trace \<times> (fatal + unit)" where
  "finish env threads background res =
     (case res of
        (tr, Inl e) \<Rightarrow> (tr, Inl e)
      | (tr, Inr (batch, index)) \<Rightarrow>
          if 0 < index then
            (case sendCommand env tr batch index threads background of
               (tr', Inl e) \<Rightarrow> (tr', Inl e)
             | (tr', Inr u) \<Rightarrow> (tr' @ [EvIncrBy index, EvDone], Inr ()))
          else (tr @ [EvDone], Inr ()))"

text \<open>Lines 122 to 145.\<close>

definition send_batches ::
  "env \<Rightarrow> nat \<Rightarrow> string \<Rightarrow> 64 word \<Rightarrow> bool \<Rightarrow> string list \<Rightarrow> trace \<Rightarrow> trace \<times> (fatal + unit)" where
  "send_batches env K mp threads background paths tr =
     finish env threads background
       (batch_loop env K mp threads background paths (replicate K []) 0 tr)"

subsection \<open>Finding the mount point\<close>

text \<open>
  Lines 101 to 109. The loop ends at the candidate \<open>/\<close>, which it does not look up, or at
  the first candidate with inode 1. Nothing in the loop bounds the number of rounds, so
  the function is partial: \<open>None\<close> is a loop that never ends.
\<close>

partial_function (option) find_mount ::
  "env \<Rightarrow> string \<Rightarrow> trace \<Rightarrow> (trace \<times> (fatal + string)) option" where
  "find_mount env mp tr =
     (if mp = ''/'' then Some (tr, Inr mp)
      else
        (case GetFileInode env mp of
           None \<Rightarrow> Some (tr @ [EvGetFileInode mp], Inl (FailedToLookupInode mp))
         | Some inode \<Rightarrow>
             if inode = 1 then Some (tr @ [EvGetFileInode mp], Inr mp)
             else find_mount env (Dir mp) (tr @ [EvGetFileInode mp])))"

declare find_mount.simps [code]

text \<open>Lines 87 to 112.\<close>

definition resolve :: "env \<Rightarrow> string \<Rightarrow> trace \<Rightarrow> (trace \<times> (fatal + string)) option" where
  "resolve env p tr =
     (case filepath_Abs env p of
        None \<Rightarrow> Some (tr @ [EvAbs p], Inl (FailedToGetAbs p))
      | Some first \<Rightarrow>
          (case os_Stat env first of
             None \<Rightarrow> Some (tr @ [EvAbs p, EvStat first], Inl (FailedToStat first))
           | Some isdir \<Rightarrow>
               (case find_mount env (if isdir then first else Dir first)
                       (tr @ [EvAbs p, EvStat first]) of
                  None \<Rightarrow> None
                | Some (tr', Inl e) \<Rightarrow> Some (tr', Inl e)
                | Some (tr', Inr mp) \<Rightarrow>
                    if mp = ''/'' then Some (tr', Inl (NotInsideJuiceFS first))
                    else Some (tr', Inr mp))))"

subsection \<open>\<open>warmup\<close>\<close>

record Context =
  ctx_file :: string
  ctx_args :: "string list"
  ctx_threads :: "64 word"
  ctx_background :: bool

text \<open>Lines 63 to 80: the arguments, then the lines of the file that are not blank.\<close>

definition read_paths :: "env \<Rightarrow> Context \<Rightarrow> trace \<times> (fatal + string list)" where
  "read_paths env ctx =
     (let fname = ctx_file ctx; paths = ctx_args ctx
      in if fname \<noteq> [] then
           (case os_Open env fname of
              None \<Rightarrow> ([EvOpen fname], Inl (FailedToOpenFile fname))
            | Some (lines, err) \<Rightarrow>
                let paths' = paths @ filter (\<lambda>p. p \<noteq> []) (map (strings_TrimSpace env) lines)
                in if err then ([EvOpen fname], Inl (ReadingFileFailed fname))
                   else ([EvOpen fname], Inr paths'))
         else ([], Inr paths))"

definition warmup :: "env \<Rightarrow> Context \<Rightarrow> (trace \<times> (fatal + unit)) option" where
  "warmup env ctx =
     (case read_paths env ctx of
        (tr, Inl e) \<Rightarrow> Some (tr, Inl e)
      | (tr, Inr paths) \<Rightarrow>
          if length paths = 0 then Some (tr @ [EvInfo NothingToWarmUp], Inr ())
          else
            (case resolve env (hd paths) tr of
               None \<Rightarrow> None
             | Some (tr1, Inl e) \<Rightarrow> Some (tr1, Inl e)
             | Some (tr1, Inr mp) \<Rightarrow>
                 if \<not> openController env mp
                 then Some (tr1 @ [EvOpenController mp], Inl (FailedToOpenControlFile mp))
                 else Some (send_batches env batchMax mp (ctx_threads ctx)
                              (ctx_background ctx) paths (tr1 @ [EvOpenController mp]))))"

section \<open>Notions of the specification\<close>

text \<open>The fields of a frame, read back in the byte order \<open>e\<close>.\<close>

definition frame_command :: "byte_order \<Rightarrow> byte list \<Rightarrow> 32 word" where
  "frame_command e f = dec32 e (take 4 f)"

definition frame_payload_len :: "byte_order \<Rightarrow> byte list \<Rightarrow> nat" where
  "frame_payload_len e f = unat (dec32 e (take 4 (drop 4 f)))"

definition frame_block_len :: "byte_order \<Rightarrow> byte list \<Rightarrow> nat" where
  "frame_block_len e f = unat (dec32 e (take 4 (drop 8 f)))"

definition frame_block :: "byte_order \<Rightarrow> byte list \<Rightarrow> string" where
  "frame_block e f = map char_of_byte (take (frame_block_len e f) (drop 12 f))"

definition frame_threads :: "byte_order \<Rightarrow> byte list \<Rightarrow> nat" where
  "frame_threads e f = unat (dec16 e (take 2 (drop (12 + frame_block_len e f) f)))"

definition frame_flag :: "byte_order \<Rightarrow> byte list \<Rightarrow> byte list" where
  "frame_flag e f = drop (14 + frame_block_len e f) f"

text \<open>The layout of a frame: the six fields one after the other.\<close>

definition layout :: "byte_order \<Rightarrow> 32 word \<Rightarrow> string \<Rightarrow> 64 word \<Rightarrow> bool \<Rightarrow> byte list" where
  "layout e code block threads background =
     enc32 e code @ enc32 e (word_of_nat (4 + 3 + length block))
       @ enc32 e (word_of_nat (length block)) @ map byte_of_char block
       @ enc16 e (ucast threads) @ [if background then 1 else 0]"

text \<open>A path lies under the mount point when the mount point is a prefix of it.\<close>

definition under_mount :: "string \<Rightarrow> string \<Rightarrow> bool" where
  "under_mount mp p = HasPrefix p mp"

definition strip :: "string \<Rightarrow> string \<Rightarrow> string" where
  "strip mp p = drop (length mp) p"

text \<open>Consecutive chunks of \<open>K\<close> elements; the last one may be shorter.\<close>

function chunks :: "nat \<Rightarrow> 'a list \<Rightarrow> 'a list list" where
  "chunks K xs = (if K = 0 \<or> xs = [] then [] else take K xs # chunks K (drop K xs))"
  by pat_completeness auto
termination
  by (relation "measure (\<lambda>(K, xs). length xs)") auto

text \<open>
  Sending a list of batches one after the other, each with one call of \<open>sendCommand\<close>
  followed by the progress count, up to the first fatal error.
\<close>

fun send_chunks ::
  "env \<Rightarrow> 64 word \<Rightarrow> bool \<Rightarrow> string list list \<Rightarrow> trace \<Rightarrow> trace \<times> (fatal + unit)" where
  "send_chunks env threads background [] tr = (tr @ [EvDone], Inr ())"
| "send_chunks env threads background (c # cs) tr =
     (case sendCommand env tr c (length c) threads background of
        (tr', Inl e) \<Rightarrow> (tr', Inl e)
      | (tr', Inr u) \<Rightarrow>
          send_chunks env threads background cs (tr' @ [EvIncrBy (length c)]))"

fun is_warn :: "event \<Rightarrow> bool" where
  "is_warn (EvWarn p m) = True"
| "is_warn e = False"

definition unwarn :: "trace \<Rightarrow> trace" where
  "unwarn tr = filter (\<lambda>e. \<not> is_warn e) tr"

text \<open>The candidates of the walk: the \<open>j\<close>-th parent of the start directory.\<close>

definition candidate :: "string \<Rightarrow> nat \<Rightarrow> string" where
  "candidate start j = (Dir ^^ j) start"

text \<open>The combined list of paths: the arguments, then the lines of the file.\<close>

definition combined :: "env \<Rightarrow> Context \<Rightarrow> string list" where
  "combined env ctx =
     ctx_args ctx @
       (if ctx_file ctx = [] then []
        else (case os_Open env (ctx_file ctx) of
                None \<Rightarrow> []
              | Some (lines, err) \<Rightarrow>
                  filter (\<lambda>p. p \<noteq> []) (map (strings_TrimSpace env) lines)))"

definition file_read :: "env \<Rightarrow> Context \<Rightarrow> bool" where
  "file_read env ctx =
     (ctx_file ctx = [] \<or>
      (case os_Open env (ctx_file ctx) of None \<Rightarrow> False | Some (lines, err) \<Rightarrow> \<not> err))"

section \<open>Auxiliary notions of the proofs\<close>

text \<open>A buffer whose first bytes \<open>pre\<close> are written and whose last \<open>m\<close> bytes are free.\<close>

definition filled :: "byte_order \<Rightarrow> byte list \<Rightarrow> nat \<Rightarrow> Buffer" where
  "filled e pre m = \<lparr>endian = e, off = length pre, buf = pre @ replicate m 0\<rparr>"

text \<open>A trace as it is, or without its warnings.\<close>

definition view :: "bool \<Rightarrow> trace \<Rightarrow> trace" where
  "view w tr = (if w then tr else unwarn tr)"

text \<open>The length of a list of path elements, with one separator for each of them.\<close>

definition weight :: "string list \<Rightarrow> nat" where
  "weight st = sum_list (map length st) + length st"

text \<open>
  The first \<open>k\<close> candidates of the walk were looked up, and none of them has inode 1.
\<close>

definition passed :: "env \<Rightarrow> string \<Rightarrow> nat \<Rightarrow> bool" where
  "passed env start k =
     list_all
       (\<lambda>j. candidate start j \<noteq> ''/'' \<and>
          (case GetFileInode env (candidate start j) of None \<Rightarrow> False | Some i \<Rightarrow> i \<noteq> 1))
       [0..<k]"

definition lookups :: "string \<Rightarrow> nat \<Rightarrow> trace" where
  "lookups start n = map (\<lambda>j. EvGetFileInode (candidate start j)) [0..<n]"

section \<open>Example environments\<close>

text \<open>
  Blanks at both ends removed: the part of \<open>strings.TrimSpace\<close> that the examples need.
\<close>

definition trim_blanks :: "string \<Rightarrow> string" where
  "trim_blanks s =
     rev (dropWhile (\<lambda>c. c = CHR '' '') (rev (dropWhile (\<lambda>c. c = CHR '' '') s)))"

text \<open>
  A file system with a mount point \<open>/mnt/jfs\<close>, where every path exists, the directories
  are the paths \<open>/mnt\<close> and \<open>/mnt/jfs\<close>, the file \<open>list.txt\<close> holds blank lines only, and
  the control file accepts every frame.
\<close>

definition env_ok :: env where
  "env_ok =
     \<lparr>buffer_endian = BigEndian,
      meta_FillCache = 1004,
      os_Open = (\<lambda>name. if name = ''list.txt'' then Some ([[], ''  ''], False) else None),
      strings_TrimSpace = trim_blanks,
      filepath_Abs = Some,
      os_Stat = (\<lambda>p. Some (p = ''/mnt'' \<or> p = ''/mnt/jfs'')),
      GetFileInode = (\<lambda>p. Some (if p = ''/mnt/jfs'' then 1 else 2)),
      openController = (\<lambda>mp. True),
      cf_Write = (\<lambda>k. False),
      cf_Read = (\<lambda>k. (1, 0, False))\<rparr>"

text \<open>The chain \<open>/a/b/c\<close> of directories, where \<open>/a/b\<close> has inode 1, and a file in it.\<close>

definition env_abc :: env where
  "env_abc =
     env_ok\<lparr>os_Stat := (\<lambda>p. Some (p \<noteq> ''/a/b/c/file.txt'')),
            GetFileInode := (\<lambda>p. Some (if p = ''/a/b'' then 1 else 7))\<rparr>"

definition example_paths :: "string list" where
  "example_paths = [''/mnt/jfs/x'', ''/mnt/jfs/y'', ''/other/z'']"

definition ctx_empty :: Context where
  "ctx_empty =
     \<lparr>ctx_file = ''list.txt'', ctx_args = [], ctx_threads = 50, ctx_background = False\<rparr>"


declare chunks.simps [simp del]

section \<open>Lemmas\<close>

subsection \<open>Encoding of integers and strings\<close>

lemma dec32_enc32: "dec32 e (enc32 e v) = v"
proof (cases e)
  case BigEndian
  have "push_bit 24 (ucast (ucast (drop_bit 24 v :: 32 word) :: byte)) OR
        push_bit 16 (ucast (ucast (drop_bit 16 v) :: byte)) OR
        push_bit 8 (ucast (ucast (drop_bit 8 v) :: byte)) OR ucast (ucast v :: byte) = v"
  proof (rule bit_word_eqI)
    fix n assume "n < LENGTH(32)"
    then consider "n < 8" | "8 \<le> n" "n < 16" | "16 \<le> n" "n < 24" | "24 \<le> n" "n < 32"
      by fastforce
    then show "bit (push_bit 24 (ucast (ucast (drop_bit 24 v :: 32 word) :: byte)) OR
        push_bit 16 (ucast (ucast (drop_bit 16 v) :: byte)) OR
        push_bit 8 (ucast (ucast (drop_bit 8 v) :: byte)) OR ucast (ucast v :: byte) :: 32 word) n = bit v n"
      by cases (auto simp add: bit_simps)
  qed
  then show ?thesis using BigEndian by (simp add: enc32_def)
next
  case LittleEndian
  have "push_bit 24 (ucast (ucast (drop_bit 24 v :: 32 word) :: byte)) OR
        push_bit 16 (ucast (ucast (drop_bit 16 v) :: byte)) OR
        push_bit 8 (ucast (ucast (drop_bit 8 v) :: byte)) OR ucast (ucast v :: byte) = v"
  proof (rule bit_word_eqI)
    fix n assume "n < LENGTH(32)"
    then consider "n < 8" | "8 \<le> n" "n < 16" | "16 \<le> n" "n < 24" | "24 \<le> n" "n < 32"
      by fastforce
    then show "bit (push_bit 24 (ucast (ucast (drop_bit 24 v :: 32 word) :: byte)) OR
        push_bit 16 (ucast (ucast (drop_bit 16 v) :: byte)) OR
        push_bit 8 (ucast (ucast (drop_bit 8 v) :: byte)) OR ucast (ucast v :: byte) :: 32 word) n = bit v n"
      by cases (auto simp add: bit_simps)
  qed
  then show ?thesis using LittleEndian by (simp add: enc32_def)
qed

lemma dec16_enc16: "dec16 e (enc16 e v) = v"
proof -
  have "push_bit 8 (ucast (ucast (drop_bit 8 v :: 16 word) :: byte)) OR ucast (ucast v :: byte) = v"
  proof (rule bit_word_eqI)
    fix n assume "n < LENGTH(16)"
    then consider "n < 8" | "8 \<le> n" "n < 16"
      by fastforce
    then show "bit (push_bit 8 (ucast (ucast (drop_bit 8 v :: 16 word) :: byte)) OR ucast (ucast v :: byte) :: 16 word) n = bit v n"
      by cases (auto simp add: bit_simps)
  qed
  then show ?thesis by (cases e) (simp_all add: enc16_def)
qed

lemma length_enc32: "length (enc32 e v) = 4"
  by (cases e) (simp_all add: enc32_def)

lemma length_enc16: "length (enc16 e v) = 2"
  by (cases e) (simp_all add: enc16_def)

lemma char_of_byte_of_char: "char_of_byte (byte_of_char c) = c"
proof -
  have "of_char c < (256 :: nat)"
    by (metis of_char_mod_256 mod_less_divisor zero_less_numeral)
  then have "unat (word_of_nat (of_char c) :: byte) = of_char c"
    by (simp add: unat_of_nat)
  then show ?thesis
    by (simp add: char_of_byte_def byte_of_char_def)
qed

lemma map_char_of_byte: "map char_of_byte (map byte_of_char s) = s"
  by (induction s) (simp_all add: char_of_byte_of_char)

lemma Split_not_Nil: "Split s c \<noteq> []"
  by (induction s) simp_all

lemma Join_Cons_Cons: "Join ((x # y) # ys) sep = x # Join (y # ys) sep"
  by (cases ys) simp_all

lemma Join_Nil_Cons: "ys \<noteq> [] \<Longrightarrow> Join ([] # ys) sep = sep @ Join ys sep"
  by (cases ys) simp_all

lemma Join_Split: "Join (Split s c) [c] = s"
proof (induction s)
  case Nil
  show ?case by simp
next
  case (Cons x xs)
  obtain y ys where S: "Split xs c = y # ys"
    using Split_not_Nil [of xs c] by (cases "Split xs c") auto
  show ?case
  proof (cases "x = c")
    case True
    then show ?thesis using Cons S by (simp add: Join_Nil_Cons)
  next
    case False
    then show ?thesis using Cons S by (simp add: Join_Cons_Cons)
  qed
qed

lemma Split_no_sep: "c \<notin> set a \<Longrightarrow> Split a c = [a]"
  by (induction a) auto

lemma Split_append_sep: "c \<notin> set a \<Longrightarrow> Split (a @ c # s) c = a # Split s c"
  by (induction a) auto

lemma Split_Join:
  "xs \<noteq> [] \<Longrightarrow> \<forall>x\<in>set xs. c \<notin> set x \<Longrightarrow> Split (Join xs [c]) c = xs"
proof (induction xs "[c]" rule: Join.induct)
  case 1
  then show ?case by simp
next
  case (2 x)
  then show ?case by (simp add: Split_no_sep)
next
  case (3 x y ys)
  then show ?case by (simp add: Split_append_sep)
qed

subsection \<open>The buffer and the frame\<close>

lemma NewBuffer_filled: "NewBuffer e sz = filled e [] (unat sz)"
  by (simp add: NewBuffer_def filled_def)

lemma endian_filled: "endian (filled e pre m) = e"
  by (simp add: filled_def)

lemma Bytes_filled: "Bytes (filled e pre 0) = pre"
  by (simp add: filled_def Bytes_def)

lemma put_bytes_filled:
  "length v \<le> m \<Longrightarrow> put_bytes v (filled e pre m) = Inr (filled e (pre @ v) (m - length v))"
  by (simp add: put_bytes_def filled_def)

lemma put_bytes_overflow: "m < length v \<Longrightarrow> put_bytes v (filled e pre m) = Inl Panic"
  by (simp add: put_bytes_def filled_def)

lemma unat_buffer_size:
  assumes "n + 15 < 2 ^ 32"
  shows "unat (8 + 4 + 3 + word_of_nat n :: 32 word) = 15 + n"
proof -
  have "(8 + 4 + 3 + word_of_nat n :: 32 word) = word_of_nat (15 + n)"
    by simp
  then have "unat (8 + 4 + 3 + word_of_nat n :: 32 word) = (15 + n) mod 2 ^ 32"
    by (simp only: unat_of_nat) simp
  then show ?thesis using assms by simp
qed

lemma frame_layout:
  assumes "count \<le> length batch"
    and "length (Join (take count batch) newline) + 15 < 2 ^ 32"
  shows "frame env batch count threads background =
    Inr (layout (buffer_endian env) (meta_FillCache env) (Join (take count batch) newline)
      threads background)"
proof -
  define paths where "paths = Join (take count batch) newline"
  define e where "e = buffer_endian env"
  have sz: "unat (8 + 4 + 3 + word_of_nat (length paths) :: 32 word) = 15 + length paths"
    using assms(2) unat_buffer_size [of "length paths"] by (simp add: paths_def)
  have "frame env batch count threads background =
    and_then (Put32 (meta_FillCache env) (filled e [] (15 + length paths))) (\<lambda>wb.
    and_then (Put32 (4 + 3 + word_of_nat (length paths)) wb) (\<lambda>wb.
    and_then (Put32 (word_of_nat (length paths)) wb) (\<lambda>wb.
    and_then (Put (map byte_of_char paths) wb) (\<lambda>wb.
    and_then (Put16 (ucast threads) wb) (\<lambda>wb.
    and_then (Put8 (if background then 1 else 0) wb) (\<lambda>wb.
    Inr (Bytes wb)))))))"
    using assms(1) sz
    by (simp only: frame_def Let_def NewBuffer_filled paths_def [symmetric] e_def [symmetric])
       simp
  also have "\<dots> = Inr (layout e (meta_FillCache env) paths threads background)"
    by (simp add: Put32_def Put16_def Put8_def Put_def endian_filled put_bytes_filled
        length_enc32 length_enc16 and_then_def Bytes_filled layout_def)
  finally show ?thesis by (simp add: paths_def e_def)
qed

lemma frame_take:
  assumes h: "count \<le> length batch"
  shows "frame env batch count threads background =
   frame env (take count batch) (length (take count batch)) threads background"
proof -
  have a: "length (take count batch) = count" using h by simp
  have b: "take count (take count batch) = take count batch" by simp
  have c: "(length batch < count) = False" using h by simp
  have d: "(count < count) = False" by simp
  show ?thesis unfolding frame_def a b c d ..
qed

lemma sendCommand_take:
  assumes h: "count \<le> length batch"
  shows "sendCommand env tr batch count threads background =
   sendCommand env tr (take count batch) (length (take count batch)) threads background"
proof -
  have a: "length (take count batch) = count" using h by simp
  show ?thesis
    unfolding sendCommand_def frame_take [OF h, of env threads background] a ..
qed

lemma length_layout: "length (layout e code block threads background) = 15 + length block"
  by (simp add: layout_def length_enc32 length_enc16)

lemma frame_command_layout: "frame_command e (layout e code block threads background) = code"
  by (simp add: frame_command_def layout_def length_enc32 dec32_enc32)

lemma frame_payload_len_layout:
  "length block + 7 < 2 ^ 32 \<Longrightarrow>
   frame_payload_len e (layout e code block threads background) = 4 + 3 + length block"
  by (simp add: frame_payload_len_def layout_def length_enc32 dec32_enc32 unat_of_nat del: of_nat_add)

lemma frame_block_len_layout:
  "length block < 2 ^ 32 \<Longrightarrow>
   frame_block_len e (layout e code block threads background) = length block"
  by (simp add: frame_block_len_def layout_def length_enc32 dec32_enc32 unat_of_nat)

lemma frame_block_layout:
  "length block < 2 ^ 32 \<Longrightarrow> frame_block e (layout e code block threads background) = block"
  by (simp add: frame_block_def frame_block_len_layout)
     (simp add: layout_def length_enc32 comp_def char_of_byte_of_char)

lemma frame_threads_layout:
  "length block < 2 ^ 32 \<Longrightarrow>
   frame_threads e (layout e code block threads background) = unat threads mod 2 ^ 16"
  by (simp add: frame_threads_def frame_block_len_layout)
     (simp add: layout_def length_enc32 length_enc16 dec16_enc16 unsigned_ucast_eq take_bit_eq_mod)

lemma frame_flag_layout:
  "length block < 2 ^ 32 \<Longrightarrow>
   frame_flag e (layout e code block threads background) = [if background then 1 else 0]"
  by (simp add: frame_flag_def frame_block_len_layout)
     (simp add: layout_def length_enc32 length_enc16)

subsection \<open>The batching loop\<close>

lemma is_write_not_warn: "is_write e \<Longrightarrow> \<not> is_warn e"
  by (cases e) simp_all

lemma is_read_not_warn: "is_read e \<Longrightarrow> \<not> is_warn e"
  by (cases e) simp_all

lemma nwrites_view: "nwrites (view w tr) = nwrites tr"
  by (induction tr) (auto simp add: nwrites_def view_def unwarn_def dest: is_write_not_warn)

lemma nreads_view: "nreads (view w tr) = nreads tr"
  by (induction tr) (auto simp add: nreads_def view_def unwarn_def dest: is_read_not_warn)

lemma view_append: "view w (tr @ tr2) = view w tr @ view w tr2"
  by (simp add: view_def unwarn_def)

lemma view_Nil: "view w [] = []"
  by (simp add: view_def unwarn_def)

lemma view_Cons: "view w (e # tr) = (if is_warn e \<and> \<not> w then view w tr else e # view w tr)"
  by (simp add: view_def unwarn_def)

lemmas view_simps = view_append view_Nil view_Cons


lemma nreads_snoc_write: "nreads (tr @ [EvWrite f]) = nreads tr"
  by (simp add: nreads_def)

lemma sendCommand_view:
  "sendCommand env (view w tr) batch count threads background =
   (case sendCommand env tr batch count threads background of (tr', r) \<Rightarrow> (view w tr', r))"
  by (simp add: sendCommand_def nwrites_view nreads_view nreads_snoc_write view_simps Let_def
      split: sum.splits prod.splits)

lemma chunks_Nil: "chunks K [] = []"
  by (simp add: chunks.simps)

lemma chunks_full: "0 < K \<Longrightarrow> length c = K \<Longrightarrow> chunks K (c @ xs) = c # chunks K xs"
  by (subst chunks.simps) auto

lemma chunks_short:
  assumes "c \<noteq> []" and "length c \<le> K"
  shows "chunks K c = [c]"
proof -
  have "0 < K" using assms by (cases c) auto
  then show ?thesis using assms by (subst chunks.simps) (simp add: chunks_Nil)
qed

lemma concat_chunks: "0 < K \<Longrightarrow> concat (chunks K xs) = xs"
proof (induction K xs rule: chunks.induct)
  case (1 K xs)
  then show ?case by (subst chunks.simps) auto
qed

lemma chunks_sizes: "c \<in> set (chunks K xs) \<Longrightarrow> c \<noteq> [] \<and> length c \<le> K"
proof (induction K xs rule: chunks.induct)
  case (1 K xs)
  from "1.prems" have ne: "\<not> (K = 0 \<or> xs = [])"
    by (subst (asm) chunks.simps) (auto split: if_splits)
  with "1.prems" have "c = take K xs \<or> c \<in> set (chunks K (drop K xs))"
    by (subst (asm) chunks.simps) auto
  then show ?case using "1.IH" [OF ne] ne by auto
qed

lemma chunks_butlast_full: "c \<in> set (butlast (chunks K xs)) \<Longrightarrow> length c = K"
proof (induction K xs rule: chunks.induct)
  case (1 K xs)
  from "1.prems" have ne: "\<not> (K = 0 \<or> xs = [])"
    by (subst (asm) chunks.simps) (auto split: if_splits)
  have eq: "chunks K xs = take K xs # chunks K (drop K xs)"
    using ne by (subst chunks.simps) simp
  show ?case
  proof (cases "chunks K (drop K xs) = []")
    case True
    then show ?thesis using "1.prems" eq by simp
  next
    case False
    then have "drop K xs \<noteq> []" by (auto simp add: chunks_Nil)
    then have len: "length (take K xs) = K" by simp
    from "1.prems" eq False have "c = take K xs \<or> c \<in> set (butlast (chunks K (drop K xs)))"
      by auto
    then show ?thesis using "1.IH" [OF ne] len by auto
  qed
qed

lemma take_Suc_update:
  "index < length batch \<Longrightarrow> take (Suc index) (batch[index := s]) = take index batch @ [s]"
  by (simp add: take_Suc_conv_app_nth)

lemma loop_view:
  assumes "0 < K" and "length batch = K" and "index < K"
    and "w \<longrightarrow> (\<forall>p\<in>set ps. under_mount mp p)"
  shows "(case finish env threads background
            (batch_loop env K mp threads background ps batch index tr) of
          (tr', r) \<Rightarrow> (view w tr', r)) =
         send_chunks env threads background
           (chunks K (take index batch @ map (strip mp) (filter (under_mount mp) ps))) (view w tr)"
  using assms
proof (induction ps arbitrary: batch index tr)
  case Nil
  show ?case
  proof (cases "0 < index")
    case True
    then have c: "take index batch \<noteq> []" "length (take index batch) \<le> K"
      "length (take index batch) = index" "index \<le> length batch"
      using Nil by auto
    show ?thesis
      using True c(3)
      by (simp add: finish_def chunks_short [OF c(1,2)] sendCommand_view
          sendCommand_take [OF c(4), of env tr] view_simps split: prod.splits sum.splits)
  next
    case False
    then show ?thesis by (simp add: finish_def chunks_Nil view_simps)
  qed
next
  case (Cons path ps)
  show ?case
  proof (cases "HasPrefix path mp")
    case False
    then have w: "w = False" using Cons.prems(4) by (auto simp add: under_mount_def)
    have "(case finish env threads background
            (batch_loop env K mp threads background ps batch index (tr @ [EvWarn path mp])) of
          (tr', r) \<Rightarrow> (view w tr', r)) =
         send_chunks env threads background
           (chunks K (take index batch @ map (strip mp) (filter (under_mount mp) ps)))
           (view w (tr @ [EvWarn path mp]))"
      using Cons.prems by (intro Cons.IH) auto
    moreover have "\<not> under_mount mp path" using False by (simp add: under_mount_def)
    ultimately show ?thesis using False w by (simp add: view_simps)
  next
    case True
    define s where "s = drop (length mp) path"
    define batch' where "batch' = batch[index := s]"
    have len': "length batch' = K" using Cons.prems by (simp add: batch'_def)
    have tk: "take (Suc index) batch' = take index batch @ [s]"
      using Cons.prems by (simp add: batch'_def take_Suc_update)
    have xs: "take index batch @ map (strip mp) (filter (under_mount mp) (path # ps)) =
              (take index batch @ [s]) @ map (strip mp) (filter (under_mount mp) ps)"
    proof -
      have "under_mount mp path" using True by (simp add: under_mount_def)
      then show ?thesis by (simp add: strip_def s_def)
    qed
    have rest: "w \<longrightarrow> (\<forall>p\<in>set ps. under_mount mp p)" using Cons.prems(4) by simp
    show ?thesis
    proof (cases "K \<le> index + 1")
      case full: True
      then have iK: "Suc index = K" using Cons.prems by simp
      have tkK: "take K batch' = take index batch @ [s]" using tk iK by simp
      have lenc: "length (take index batch @ [s]) = K" using tkK len' by (metis length_take min.idem)
      have sc: "sendCommand env tr batch' K threads background =
                sendCommand env tr (take index batch @ [s]) K threads background"
        using sendCommand_take [of K batch' env tr threads background] len' tkK lenc by simp
      obtain tr' r where res: "sendCommand env tr (take index batch @ [s]) K threads background = (tr', r)"
        by (cases "sendCommand env tr (take index batch @ [s]) K threads background")
      have lhs: "batch_loop env K mp threads background (path # ps) batch index tr =
        (case r of Inl e \<Rightarrow> (tr', Inl e)
         | Inr u \<Rightarrow> batch_loop env K mp threads background ps batch' 0 (tr' @ [EvIncrBy K]))"
        using True Cons.prems full iK sc res
        by (simp add: Let_def s_def [symmetric] batch'_def [symmetric] split: sum.splits)
      have rhs: "send_chunks env threads background
           (chunks K (take index batch @ map (strip mp) (filter (under_mount mp) (path # ps)))) (view w tr) =
        (case r of Inl e \<Rightarrow> (view w tr', Inl e)
         | Inr u \<Rightarrow> send_chunks env threads background
             (chunks K (map (strip mp) (filter (under_mount mp) ps))) (view w tr' @ [EvIncrBy K]))"
        using res lenc Cons.prems(1)
        by (simp only: xs chunks_full [OF Cons.prems(1) lenc] send_chunks.simps sendCommand_view)
           (simp split: sum.splits)
      show ?thesis
      proof (cases r)
        case (Inl e)
        then show ?thesis unfolding lhs rhs by (simp add: finish_def)
      next
        case (Inr u)
        have "(case finish env threads background
            (batch_loop env K mp threads background ps batch' 0 (tr' @ [EvIncrBy K])) of
          (tr', r) \<Rightarrow> (view w tr', r)) =
         send_chunks env threads background
           (chunks K (take 0 batch' @ map (strip mp) (filter (under_mount mp) ps)))
           (view w (tr' @ [EvIncrBy K]))"
          using Cons.prems(1) len' rest by (intro Cons.IH) auto
        then show ?thesis unfolding lhs rhs using Inr by (simp add: view_simps)
      qed
    next
      case notfull: False
      then have i': "Suc index < K" by simp
      have lhs: "batch_loop env K mp threads background (path # ps) batch index tr =
        batch_loop env K mp threads background ps batch' (Suc index) tr"
        using True Cons.prems notfull
        by (simp add: Let_def s_def [symmetric] batch'_def [symmetric])
      have "(case finish env threads background
            (batch_loop env K mp threads background ps batch' (Suc index) tr) of
          (tr', r) \<Rightarrow> (view w tr', r)) =
         send_chunks env threads background
           (chunks K (take (Suc index) batch' @ map (strip mp) (filter (under_mount mp) ps)))
           (view w tr)"
        using Cons.prems(1) len' i' rest by (intro Cons.IH) auto
      then show ?thesis unfolding lhs xs tk .
    qed
  qed
qed

subsection \<open>Paths and the walk to the mount point\<close>

lemma weight_Nil: "weight [] = 0"
  by (simp add: weight_def)

lemma weight_Cons: "weight (e # st) = length e + 1 + weight st"
  by (simp add: weight_def)

lemma weight_snoc: "weight (st @ [e]) = weight st + length e + 1"
  by (simp add: weight_def)

lemma weight_butlast: "weight (butlast st) \<le> weight st"
  by (induction st) (simp_all add: weight_Nil weight_Cons)

lemma length_Join: "st \<noteq> [] \<Longrightarrow> length (Join st [c]) + 1 = weight st"
  by (induction st "[c]" rule: Join.induct) (simp_all add: weight_Cons weight_Nil)

lemma weight_Split: "weight (Split s c) = length s + 1"
proof (induction s)
  case Nil
  show ?case by (simp add: weight_Cons weight_Nil)
next
  case (Cons x xs)
  obtain y ys where S: "Split xs c = y # ys"
    using Split_not_Nil [of xs c] by (cases "Split xs c") auto
  show ?case using Cons S by (simp add: weight_Cons)
qed

lemma weight_clean_rooted: "weight (clean_rooted st e) \<le> weight st + length e + 1"
  using weight_butlast [of st] by (simp add: weight_snoc)

lemma weight_foldl_clean_rooted:
  "weight (foldl clean_rooted st es) \<le> weight st + weight es"
proof (induction es arbitrary: st)
  case Nil
  show ?case by (simp add: weight_Nil)
next
  case (Cons e es)
  have "weight (foldl clean_rooted (clean_rooted st e) es) \<le> weight (clean_rooted st e) + weight es"
    by (rule Cons.IH)
  also have "\<dots> \<le> weight st + length e + 1 + weight es"
    using weight_clean_rooted [of st e] by simp
  finally show ?case by (simp add: weight_Cons del: clean_rooted.simps)
qed

lemma Clean_rooted_eq:
  "Clean (slash # q) = slash # Join (foldl clean_rooted [] (Split q slash)) [slash]"
  by (simp add: Clean_def)

lemma length_Clean_rooted:
  assumes "rooted p"
  shows "length (Clean p) \<le> length p"
proof -
  obtain q where p: "p = slash # q" using assms by (cases p) (auto simp add: rooted_def)
  define F where "F = foldl clean_rooted [] (Split q slash)"
  have w: "weight F \<le> length q + 1"
    using weight_foldl_clean_rooted [of "[]" "Split q slash"]
    by (simp add: F_def weight_Nil weight_Split)
  show ?thesis
  proof (cases "F = []")
    case True
    then show ?thesis by (simp add: p Clean_rooted_eq F_def [symmetric])
  next
    case False
    then have "length (Join F [slash]) + 1 = weight F" by (rule length_Join)
    then show ?thesis using w by (simp add: p Clean_rooted_eq F_def [symmetric])
  qed
qed

lemma rooted_Clean: "rooted p \<Longrightarrow> rooted (Clean p)"
  by (simp add: rooted_def Clean_def)

lemma Split_snoc_sep: "Split (q @ [c]) c = Split q c @ [[]]"
proof (induction q)
  case Nil
  show ?case by simp
next
  case (Cons x xs)
  obtain y ys where S: "Split xs c = y # ys"
    using Split_not_Nil [of xs c] by (cases "Split xs c") auto
  show ?case using Cons S by simp
qed

lemma Clean_trailing:
  assumes "rooted p"
  shows "Clean (p @ [slash]) = Clean p"
proof -
  obtain q where p: "p = slash # q" using assms by (cases p) (auto simp add: rooted_def)
  show ?thesis
    by (simp add: p Clean_rooted_eq Split_snoc_sep del: clean_rooted.simps)
       simp
qed

lemma Clean_root: "Clean ''/'' = ''/''"
  by (simp add: Clean_def)

lemma Dir_rooted:
  assumes "rooted p"
  shows "rooted (Dir p) \<and> (p \<noteq> ''/'' \<longrightarrow> length (Dir p) < length p)"
proof -
  define P where "P = (\<lambda>c. c \<noteq> slash)"
  obtain q where p: "p = slash # q" using assms by (cases p) (auto simp add: rooted_def)
  have "slash \<in> set (rev p)" by (simp add: p)
  then have ne: "dropWhile P (rev p) \<noteq> []" by (simp add: P_def)
  then have "\<not> P (hd (dropWhile P (rev p)))" by (rule hd_dropWhile)
  then obtain r where dw: "dropWhile P (rev p) = slash # r"
    using ne by (cases "dropWhile P (rev p)") (auto simp add: P_def)
  define t where "t = rev (takeWhile P (rev p))"
  have "rev p = takeWhile P (rev p) @ dropWhile P (rev p)" by simp
  then have "rev (rev p) = rev (takeWhile P (rev p) @ dropWhile P (rev p))" by simp
  then have decomp: "p = rev r @ [slash] @ t"
    by (simp add: dw t_def)
  have D: "Dir p = Clean (rev r @ [slash])"
    by (simp add: Dir_def P_def [symmetric] dw)
  show ?thesis
  proof (cases "r = []")
    case True
    then have "Dir p = ''/''" using D by (simp add: Clean_root)
    moreover have "p \<noteq> ''/'' \<longrightarrow> 1 < length p" using decomp True by (cases t) auto
    ultimately show ?thesis by (simp add: rooted_def)
  next
    case False
    then have "hd (rev r) = hd p" using decomp by (metis hd_append2 rev_is_Nil_conv)
    then have rr: "rooted (rev r)" using assms False by (simp add: rooted_def)
    then have "Dir p = Clean (rev r)" using D by (simp add: Clean_trailing)
    moreover have "length (Clean (rev r)) \<le> length (rev r)" using rr by (rule length_Clean_rooted)
    moreover have "length p = length (rev r @ [slash] @ t)" using decomp by simp
    then have "length (rev r) < length p" by simp
    moreover have "rooted (Clean (rev r))" using rr by (rule rooted_Clean)
    ultimately show ?thesis by simp
  qed
qed

lemma candidate_0: "candidate start 0 = start"
  by (simp add: candidate_def)

lemma candidate_Dir: "candidate (Dir mp) j = candidate mp (Suc j)"
  by (simp add: candidate_def funpow_swap1)

lemma passed_iff:
  "passed env start k \<longleftrightarrow>
     (\<forall>j<k. candidate start j \<noteq> ''/'' \<and>
        (case GetFileInode env (candidate start j) of None \<Rightarrow> False | Some i \<Rightarrow> i \<noteq> 1))"
  by (auto simp add: passed_def list_all_iff)

lemma passed_0: "passed env start 0"
  by (simp add: passed_iff)

lemma passed_Suc:
  "mp \<noteq> ''/'' \<Longrightarrow> GetFileInode env mp = Some i \<Longrightarrow> i \<noteq> 1 \<Longrightarrow> passed env (Dir mp) k
   \<Longrightarrow> passed env mp (Suc k)"
  unfolding passed_iff
proof (intro allI impI)
  fix j
  assume a: "mp \<noteq> ''/''" "GetFileInode env mp = Some i" "i \<noteq> 1"
    and b: "\<forall>j<k. candidate (Dir mp) j \<noteq> ''/'' \<and>
        (case GetFileInode env (candidate (Dir mp) j) of None \<Rightarrow> False | Some i \<Rightarrow> i \<noteq> 1)"
    and j: "j < Suc k"
  show "candidate mp j \<noteq> ''/'' \<and>
        (case GetFileInode env (candidate mp j) of None \<Rightarrow> False | Some i \<Rightarrow> i \<noteq> 1)"
  proof (cases j)
    case 0
    then show ?thesis using a by (simp add: candidate_0)
  next
    case (Suc j')
    then have "j' < k" using j by simp
    then show ?thesis using b Suc by (simp add: candidate_Dir)
  qed
qed

lemma lookups_0: "lookups start 0 = []"
  by (simp add: lookups_def)

lemma lookups_Suc_Dir:
  "EvGetFileInode mp # lookups (Dir mp) n = lookups mp (Suc n)"
proof -
  have "[0..<Suc n] = 0 # map Suc [0..<n]"
    by (simp add: upt_conv_Cons map_Suc_upt del: upt_Suc)
  then show ?thesis
    by (simp add: lookups_def candidate_Dir candidate_0 comp_def del: upt_Suc)
qed

lemma find_mount_walk:
  assumes "rooted mp"
  shows "\<exists>k. passed env mp k \<and>
    (if candidate mp k = ''/'' then
       find_mount env mp tr = Some (tr @ lookups mp k, Inr ''/'')
     else
       (case GetFileInode env (candidate mp k) of
          None \<Rightarrow> find_mount env mp tr =
            Some (tr @ lookups mp (Suc k), Inl (FailedToLookupInode (candidate mp k)))
        | Some i \<Rightarrow> i = 1 \<and> find_mount env mp tr =
            Some (tr @ lookups mp (Suc k), Inr (candidate mp k))))"
  using assms
proof (induction "length mp" arbitrary: mp tr rule: less_induct)
  case less
  show ?case
  proof (cases "mp = ''/''")
    case True
    then have "find_mount env mp tr = Some (tr, Inr ''/'')"
      by (subst find_mount.simps) simp
    then show ?thesis using True
      by (intro exI [of _ 0]) (simp add: passed_0 candidate_0 lookups_0)
  next
    case notroot: False
    show ?thesis
    proof (cases "GetFileInode env mp")
      case None
      then have "find_mount env mp tr =
        Some (tr @ [EvGetFileInode mp], Inl (FailedToLookupInode mp))"
        using notroot by (subst find_mount.simps) simp
      then show ?thesis using notroot None
        by (intro exI [of _ 0])
           (simp add: passed_0 candidate_0 lookups_Suc_Dir [symmetric] lookups_0)
    next
      case (Some i)
      show ?thesis
      proof (cases "i = 1")
        case True
        then have "find_mount env mp tr = Some (tr @ [EvGetFileInode mp], Inr mp)"
          using notroot Some by (subst find_mount.simps) simp
        then show ?thesis using notroot Some True
          by (intro exI [of _ 0])
             (simp add: passed_0 candidate_0 lookups_Suc_Dir [symmetric] lookups_0)
      next
        case False
        have fm: "find_mount env mp tr = find_mount env (Dir mp) (tr @ [EvGetFileInode mp])"
          using notroot Some False by (subst find_mount.simps) simp
        have d: "rooted (Dir mp)" "length (Dir mp) < length mp"
          using Dir_rooted [OF less.prems] notroot by auto
        from less.hyps [OF d(2) d(1), of "tr @ [EvGetFileInode mp]"]
        obtain k where k: "passed env (Dir mp) k"
          "(if candidate (Dir mp) k = ''/'' then
             find_mount env (Dir mp) (tr @ [EvGetFileInode mp]) =
               Some ((tr @ [EvGetFileInode mp]) @ lookups (Dir mp) k, Inr ''/'')
           else
             (case GetFileInode env (candidate (Dir mp) k) of
                None \<Rightarrow> find_mount env (Dir mp) (tr @ [EvGetFileInode mp]) =
                  Some ((tr @ [EvGetFileInode mp]) @ lookups (Dir mp) (Suc k),
                        Inl (FailedToLookupInode (candidate (Dir mp) k)))
              | Some i \<Rightarrow> i = 1 \<and> find_mount env (Dir mp) (tr @ [EvGetFileInode mp]) =
                  Some ((tr @ [EvGetFileInode mp]) @ lookups (Dir mp) (Suc k),
                        Inr (candidate (Dir mp) k))))"
          by blast
        have p: "passed env mp (Suc k)"
          using notroot Some False k(1) by (rule passed_Suc)
        have app: "\<And>n. (tr @ [EvGetFileInode mp]) @ lookups (Dir mp) n = tr @ lookups mp (Suc n)"
          by (simp add: lookups_Suc_Dir)
        show ?thesis
          using p k(2) unfolding fm app candidate_Dir
          by (intro exI [of _ "Suc k"]) simp
      qed
    qed
  qed
qed

subsection \<open>Traces, warnings and the whole command\<close>

lemma frames_append: "frames (tr @ tr2) = frames tr @ frames tr2"
  by (induction tr rule: frames.induct) simp_all


lemma warmed_append: "warmed (tr @ tr2) = warmed tr + warmed tr2"
  by (induction tr rule: warmed.induct) simp_all


lemma sendCommand_success:
  assumes "sendCommand env tr batch count threads background = (tr', Inr u)"
  shows "\<exists>f. frame env batch count threads background = Inr f \<and>
    tr' = tr @ [EvWrite f, if background then EvInfo (WarmUpInBackground count) else EvRead]"
  using assms
  by (auto simp add: sendCommand_def Let_def split: sum.splits prod.splits if_splits)


lemma send_chunks_frames:
  assumes "send_chunks env threads background cs tr = (tr', Inr u)"
  shows "map Inr (frames tr') =
    map Inr (frames tr) @ map (\<lambda>c. frame env c (length c) threads background) cs
    \<and> warmed tr' = warmed tr + length (concat cs)"
  using assms
proof (induction cs arbitrary: tr)
  case Nil
  then show ?case by (auto simp add: frames_append warmed_append)
next
  case (Cons c cs)
  obtain tr1 r where sc: "sendCommand env tr c (length c) threads background = (tr1, r)"
    by (cases "sendCommand env tr c (length c) threads background")
  with Cons.prems obtain v where r: "r = Inr v" by (cases r) auto
  from sendCommand_success [OF sc [unfolded r]]
  obtain f where f: "frame env c (length c) threads background = Inr f"
    "tr1 = tr @ [EvWrite f, if background then EvInfo (WarmUpInBackground (length c)) else EvRead]"
    by blast
  have "send_chunks env threads background cs (tr1 @ [EvIncrBy (length c)]) = (tr', Inr u)"
    using Cons.prems sc r by simp
  from Cons.IH [OF this] show ?case
    using f by (simp add: frames_append warmed_append)
qed



lemma send_batches_view:
  assumes "0 < K" and "w \<longrightarrow> (\<forall>p\<in>set ps. under_mount mp p)"
  shows "(case send_batches env K mp threads background ps tr of (tr', r) \<Rightarrow> (view w tr', r)) =
         send_chunks env threads background
           (chunks K (map (strip mp) (filter (under_mount mp) ps))) (view w tr)"
  using loop_view [of K "replicate K []" 0 w ps mp env threads background tr] assms
  by (simp add: send_batches_def)

lemma send_batches_exact:
  assumes "0 < K" and "\<forall>p\<in>set ps. under_mount mp p"
  shows "send_batches env K mp threads background ps tr =
         send_chunks env threads background (chunks K (map (strip mp) ps)) tr"
proof -
  have "filter (under_mount mp) ps = ps" using assms(2) by (induction ps) auto
  then show ?thesis
    using send_batches_view [of K True ps mp env threads background tr] assms
    by (simp add: view_def split: prod.splits)
qed


lemma read_paths_ok:
  assumes "file_read env ctx"
  shows "read_paths env ctx =
    (if ctx_file ctx = [] then [] else [EvOpen (ctx_file ctx)], Inr (combined env ctx))"
  using assms
  by (auto simp add: read_paths_def file_read_def combined_def Let_def split: option.splits)

lemma resolve_walk:
  assumes "filepath_Abs env p = Some first" and "os_Stat env first = Some isdir"
    and "rooted first"
  shows "\<exists>k. passed env (if isdir then first else Dir first) k \<and>
    (if candidate (if isdir then first else Dir first) k = ''/'' then
       resolve env p tr =
         Some (tr @ [EvAbs p, EvStat first] @ lookups (if isdir then first else Dir first) k,
               Inl (NotInsideJuiceFS first))
     else
       (case GetFileInode env (candidate (if isdir then first else Dir first) k) of
          None \<Rightarrow> resolve env p tr =
            Some (tr @ [EvAbs p, EvStat first]
                    @ lookups (if isdir then first else Dir first) (Suc k),
                  Inl (FailedToLookupInode (candidate (if isdir then first else Dir first) k)))
        | Some i \<Rightarrow> i = 1 \<and> resolve env p tr =
            Some (tr @ [EvAbs p, EvStat first]
                    @ lookups (if isdir then first else Dir first) (Suc k),
                  Inr (candidate (if isdir then first else Dir first) k))))"
proof -
  define start where "start = (if isdir then first else Dir first)"
  have "rooted start" using assms(3) Dir_rooted [of first] by (simp add: start_def)
  from find_mount_walk [OF this, of env "tr @ [EvAbs p, EvStat first]"]
  obtain k where k: "passed env start k"
    "(if candidate start k = ''/'' then
       find_mount env start (tr @ [EvAbs p, EvStat first]) =
         Some ((tr @ [EvAbs p, EvStat first]) @ lookups start k, Inr ''/'')
     else
       (case GetFileInode env (candidate start k) of
          None \<Rightarrow> find_mount env start (tr @ [EvAbs p, EvStat first]) =
            Some ((tr @ [EvAbs p, EvStat first]) @ lookups start (Suc k),
                  Inl (FailedToLookupInode (candidate start k)))
        | Some i \<Rightarrow> i = 1 \<and> find_mount env start (tr @ [EvAbs p, EvStat first]) =
            Some ((tr @ [EvAbs p, EvStat first]) @ lookups start (Suc k),
                  Inr (candidate start k))))"
    by blast
  have r: "resolve env p tr =
    (case find_mount env start (tr @ [EvAbs p, EvStat first]) of
       None \<Rightarrow> None
     | Some (tr', Inl e) \<Rightarrow> Some (tr', Inl e)
     | Some (tr', Inr mp) \<Rightarrow>
         if mp = ''/'' then Some (tr', Inl (NotInsideJuiceFS first)) else Some (tr', Inr mp))"
    using assms(1,2) by (simp add: resolve_def start_def)
  show ?thesis
    unfolding start_def [symmetric] r using k
    by (intro exI [of _ k]) (auto split: option.splits if_splits)
qed

subsection \<open>Frames of the example environment\<close>

lemma sendCommand_frames:
  assumes "frame env batch count threads background = Inr f"
  shows "frames (fst (sendCommand env tr batch count threads background)) = frames tr @ [f]"
  using assms
  by (simp add: sendCommand_def Let_def frames_append split: prod.splits)

lemma frame_env_ok_eval:
  "frame env_ok [[CHR ''a'', nl, CHR ''b'']] 1 50 False =
     Inr [0, 0, 3, 236, 0, 0, 0, 10, 0, 0, 0, 3, 97, 10, 98, 0, 50, 0]"
  by (simp add: frame_def env_ok_def NewBuffer_def Put32_def Put16_def Put8_def Put_def
      put_bytes_def and_then_def Bytes_def enc32_def enc16_def byte_of_char_def)

lemma frame_env_ok_empty:
  "frame env_ok [] 0 50 False = Inr [0, 0, 3, 236, 0, 0, 0, 7, 0, 0, 0, 0, 0, 50, 0]"
  by (simp add: frame_def env_ok_def NewBuffer_def Put32_def Put16_def Put8_def Put_def
      put_bytes_def and_then_def Bytes_def enc32_def enc16_def byte_of_char_def)

lemma frame_block_eval:
  "frame_block BigEndian [0, 0, 3, 236, 0, 0, 0, 10, 0, 0, 0, 3, 97, 10, 98, 0, 50, 0] =
     [CHR ''a'', nl, CHR ''b'']"
  by code_simp

lemma frame_block_empty:
  "frame_block BigEndian [0, 0, 3, 236, 0, 0, 0, 7, 0, 0, 0, 0, 0, 50, 0] = []"
  by (simp add: frame_block_def frame_block_len_def char_of_byte_def)

text \<open>
  A path block of \<open>2 ^ 32 - 7\<close> bytes: the payload length wraps to 0, the buffer has 8
  bytes, and the third \<open>Put32\<close> is past its end.
\<close>

lemma frame_oversize:
  "frame env [replicate (2 ^ 32 - 7) c] 1 threads background = Inl Panic"
proof -
  define e where "e = buffer_endian env"
  define big :: string where "big = replicate (2 ^ 32 - 7) c"
  have len: "length big = 4294967289" by (simp add: big_def)
  have paths: "Join (take 1 [big]) newline = big" by simp
  have sz: "unat (8 + 4 + 3 + word_of_nat (length big) :: 32 word) = 8"
    unfolding len by simp
  have c: "(length [big] < 1) = False" by simp
  have "frame env [big] 1 threads background =
    and_then (Put32 (meta_FillCache env) (filled e [] 8)) (\<lambda>wb.
    and_then (Put32 (4 + 3 + word_of_nat (length big)) wb) (\<lambda>wb.
    and_then (Put32 (word_of_nat (length big)) wb) (\<lambda>wb.
    and_then (Put (map byte_of_char big) wb) (\<lambda>wb.
    and_then (Put16 (ucast threads) wb) (\<lambda>wb.
    and_then (Put8 (if background then 1 else 0) wb) (\<lambda>wb.
    Inr (Bytes wb)))))))"
    by (simp only: frame_def Let_def NewBuffer_filled paths c if_False sz e_def [symmetric])
  also have "\<dots> = Inl Panic"
    by (simp add: Put32_def endian_filled put_bytes_filled put_bytes_overflow
        length_enc32 and_then_def)
  finally show ?thesis by (simp add: big_def)
qed

lemma frame_env_ok_x:
  "frame env_ok [''/x''] 1 50 False =
     Inr [0, 0, 3, 236, 0, 0, 0, 9, 0, 0, 0, 2, 47, 120, 0, 50, 0]"
  by (simp add: frame_def env_ok_def NewBuffer_def Put32_def Put16_def Put8_def Put_def
      put_bytes_def and_then_def Bytes_def enc32_def enc16_def byte_of_char_def)

lemma frame_env_ok_x_bg:
  "frame env_ok [''/x''] 1 50 True =
     Inr [0, 0, 3, 236, 0, 0, 0, 9, 0, 0, 0, 2, 47, 120, 0, 50, 1]"
  by (simp add: frame_def env_ok_def NewBuffer_def Put32_def Put16_def Put8_def Put_def
      put_bytes_def and_then_def Bytes_def enc32_def enc16_def byte_of_char_def)

lemma frame_cf_Read:
  "frame (env\<lparr>cf_Read := r\<rparr>) batch count threads background =
   frame env batch count threads background"
proof -
  have a: "buffer_endian (env\<lparr>cf_Read := r\<rparr>) = buffer_endian env" by simp
  have b: "meta_FillCache (env\<lparr>cf_Read := r\<rparr>) = meta_FillCache env" by simp
  show ?thesis unfolding frame_def a b ..
qed

subsection \<open>Runs of the example environments\<close>

lemma batchMax_pos: "0 < batchMax"
  by (simp add: batchMax_def)


lemma env_ok_write: "\<not> cf_Write env_ok k"
  by (simp add: env_ok_def)

lemma env_ok_read: "cf_Read env_ok k = (1, 0, False)"
  by (simp add: env_ok_def)

lemma sendCommand_ok:
  assumes "frame env batch count threads False = Inr f"
    and "\<not> cf_Write env (nwrites tr)"
    and "cf_Read env (nreads tr) = (1, 0, False)"
  shows "sendCommand env tr batch count threads False = (tr @ [EvWrite f, EvRead], Inr ())"
  using assms by (simp add: sendCommand_def Let_def nreads_def)

lemma sendCommand_ok_bg:
  assumes "frame env batch count threads True = Inr f"
    and "\<not> cf_Write env (nwrites tr)"
  shows "sendCommand env tr batch count threads True =
    (tr @ [EvWrite f, EvInfo (WarmUpInBackground count)], Inr ())"
  using assms by (simp add: sendCommand_def Let_def)

lemma sendCommand_env_ok_x:
  "sendCommand env_ok [] [''/x''] (Suc 0) 50 False =
     ([EvWrite [0, 0, 3, 236, 0, 0, 0, 9, 0, 0, 0, 2, 47, 120, 0, 50, 0], EvRead], Inr ())"
  using sendCommand_ok [OF frame_env_ok_x env_ok_write env_ok_read, of "[]"] by simp

lemma send_chunks_env_ok_one:
  "send_chunks env_ok 50 False [[''/x'']] [] =
     ([EvWrite [0, 0, 3, 236, 0, 0, 0, 9, 0, 0, 0, 2, 47, 120, 0, 50, 0], EvRead,
       EvIncrBy 1, EvDone], Inr ())"
  by (simp add: sendCommand_env_ok_x)

lemma chunks_batchMax_one: "chunks batchMax [x] = [[x]]"
  by (rule chunks_short) (simp_all add: batchMax_def)


lemma example_run:
  assumes "\<not> cf_Write env 0"
    and "background \<or> cf_Read env 0 = (1, 0, False)"
  shows "send_batches env 2 ''/mnt/jfs'' threads background example_paths [] =
      ([EvWrite (layout (buffer_endian env) (meta_FillCache env) (''/x'' @ newline @ ''/y'')
                  threads background),
        if background then EvInfo (WarmUpInBackground 2) else EvRead,
        EvIncrBy 2,
        EvWarn ''/other/z'' ''/mnt/jfs'',
        EvDone], Inr ())"
proof -
  let ?f = "layout (buffer_endian env) (meta_FillCache env) (''/x'' @ newline @ ''/y'')
              threads background"
  have fr: "frame env [''/x'', ''/y''] 2 threads background = Inr ?f"
    using frame_layout [of 2 "[''/x'', ''/y'']" env threads background] by simp
  have sc: "sendCommand env [] [''/x'', ''/y''] 2 threads background =
      ([EvWrite ?f, if background then EvInfo (WarmUpInBackground 2) else EvRead], Inr ())"
  proof (cases background)
    case True
    then show ?thesis
      using sendCommand_ok_bg [of env "[''/x'', ''/y'']" 2 threads ?f "[]"] fr assms(1)
      by (simp add: nwrites_def)
  next
    case False
    then show ?thesis
      using sendCommand_ok [of env "[''/x'', ''/y'']" 2 threads ?f "[]"] fr assms
      by (simp add: nwrites_def nreads_def)
  qed
  have sc': "sendCommand env [] [''/x'', ''/y''] (Suc (Suc 0)) threads background =
      ([EvWrite ?f, if background then EvInfo (WarmUpInBackground 2) else EvRead], Inr ())"
    using sc by (simp add: numeral_2_eq_2)
  show ?thesis
    by (simp add: send_batches_def finish_def example_paths_def HasPrefix_def numeral_2_eq_2 sc')
qed

lemma layout_example:
  "layout BigEndian 1004 (''/x'' @ newline @ ''/y'') 50 False =
     [0, 0, 3, 236, 0, 0, 0, 12, 0, 0, 0, 5, 47, 120, 10, 47, 121, 0, 50, 0]"
  by (simp add: layout_def enc32_def enc16_def byte_of_char_def)

lemma frame_env_ok_xy:
  "frame env_ok [''x'', ''y''] 2 50 False =
     Inr [0, 0, 3, 236, 0, 0, 0, 10, 0, 0, 0, 3, 120, 10, 121, 0, 50, 0]"
  by (simp add: frame_def env_ok_def NewBuffer_def Put32_def Put16_def Put8_def Put_def
      put_bytes_def and_then_def Bytes_def enc32_def enc16_def byte_of_char_def)

lemma Dir_file: "Dir ''/a/b/c/file.txt'' = ''/a/b/c''"
  by (simp add: Dir_def Clean_def)

lemma Dir_abc: "Dir ''/a/b/c'' = ''/a/b''"
  by (simp add: Dir_def Clean_def)

lemma env_abc_fields:
  "filepath_Abs env_abc q = Some q"
  "os_Stat env_abc q = Some (q \<noteq> ''/a/b/c/file.txt'')"
  "GetFileInode env_abc q = Some (if q = ''/a/b'' then 1 else 7)"
  by (simp_all add: env_abc_def env_ok_def)

lemma resolve_abc:
  "resolve env_abc ''/a/b/c/file.txt'' [] =
     Some ([EvAbs ''/a/b/c/file.txt'', EvStat ''/a/b/c/file.txt'',
            EvGetFileInode ''/a/b/c'', EvGetFileInode ''/a/b''], Inr ''/a/b'')"
proof -
  have 1: "find_mount env_abc ''/a/b'' tr = Some (tr @ [EvGetFileInode ''/a/b''], Inr ''/a/b'')"
    for tr
    by (subst find_mount.simps) (simp add: env_abc_fields)
  have 2: "find_mount env_abc ''/a/b/c'' tr =
      Some (tr @ [EvGetFileInode ''/a/b/c'', EvGetFileInode ''/a/b''], Inr ''/a/b'')" for tr
    by (subst find_mount.simps) (simp add: env_abc_fields Dir_abc 1)
  show ?thesis
    by (simp add: resolve_def env_abc_fields Dir_file 2)
qed







section \<open>The claims\<close>

text \<open>
  C1, as amended. For a batch whose joined path block is shorter than \<open>2 ^ 32 - 15\<close> bytes,
  \<open>sendCommand\<close> writes one frame: the 4 bytes of the command code, the 4 bytes of the
  payload length \<open>4 + 3 + n\<close>, the 4 bytes of the length \<open>n\<close> of the path block, the path
  block (the entries joined by a newline), the 2 bytes of the thread count and the byte of
  the background flag, 1 in the background and 0 otherwise. When the batch is not empty and
  no entry holds a newline, splitting the path block at the newlines gives the batch back.
\<close>

theorem C1_frame_layout:
  assumes "count \<le> length batch"
    and "length (Join (take count batch) newline) + 15 < 2 ^ 32"
  shows "\<exists>f. frame env batch count threads background = Inr f
    \<and> frames (fst (sendCommand env tr batch count threads background)) = frames tr @ [f]
    \<and> f = enc32 (buffer_endian env) (meta_FillCache env)
          @ enc32 (buffer_endian env) (word_of_nat (4 + 3 + length (Join (take count batch) newline)))
          @ enc32 (buffer_endian env) (word_of_nat (length (Join (take count batch) newline)))
          @ map byte_of_char (Join (take count batch) newline)
          @ enc16 (buffer_endian env) (ucast threads)
          @ [if background then 1 else 0]
    \<and> length f = 4 + 4 + 4 + length (Join (take count batch) newline) + 2 + 1
    \<and> frame_command (buffer_endian env) f = meta_FillCache env
    \<and> frame_payload_len (buffer_endian env) f = 4 + 3 + length (Join (take count batch) newline)
    \<and> frame_block_len (buffer_endian env) f = length (Join (take count batch) newline)
    \<and> frame_block (buffer_endian env) f = Join (take count batch) newline
    \<and> frame_flag (buffer_endian env) f = [if background then 1 else 0]
    \<and> (0 < count \<and> (\<forall>p\<in>set (take count batch). nl \<notin> set p) \<longrightarrow>
         Split (frame_block (buffer_endian env) f) nl = take count batch)"
proof -
  define block where "block = Join (take count batch) newline"
  define e where "e = buffer_endian env"
  define f where "f = layout e (meta_FillCache env) block threads background"
  have fr: "frame env batch count threads background = Inr f"
    using frame_layout [OF assms] by (simp add: f_def block_def e_def)
  have small: "length block + 7 < 2 ^ 32" "length block < 2 ^ 32"
    using assms(2) by (simp_all add: block_def)
  have split: "Split block nl = take count batch"
    if "0 < count" "\<forall>p\<in>set (take count batch). nl \<notin> set p"
  proof -
    have "take count batch \<noteq> []" using that(1) assms(1) by auto
    then show ?thesis unfolding block_def using that(2) by (rule Split_Join)
  qed
  have "frames (fst (sendCommand env tr batch count threads background)) = frames tr @ [f]"
    using fr by (rule sendCommand_frames)
  moreover have "f = enc32 e (meta_FillCache env)
          @ enc32 e (word_of_nat (4 + 3 + length block))
          @ enc32 e (word_of_nat (length block))
          @ map byte_of_char block
          @ enc16 e (ucast threads)
          @ [if background then 1 else 0]"
    by (simp add: f_def layout_def)
  moreover have "length f = 4 + 4 + 4 + length block + 2 + 1"
    by (simp add: f_def length_layout)
  moreover have "frame_command e f = meta_FillCache env"
    by (simp add: f_def frame_command_layout)
  moreover have "frame_payload_len e f = 4 + 3 + length block"
    using small(1) unfolding f_def by (rule frame_payload_len_layout)
  moreover have "frame_block_len e f = length block"
    using small(2) unfolding f_def by (rule frame_block_len_layout)
  moreover have "frame_block e f = block"
    using small(2) unfolding f_def by (rule frame_block_layout)
  moreover have "frame_flag e f = [if background then 1 else 0]"
    using small(2) unfolding f_def by (rule frame_flag_layout)
  ultimately show ?thesis
    using fr split unfolding block_def [symmetric] e_def [symmetric]
    by (intro exI [of _ f]) simp
qed

theorem C1_frame_layout_witness:
  "(2 :: nat) \<le> length [''/x'', ''/y'']
   \<and> length (Join (take 2 [''/x'', ''/y'']) newline) + 15 < 2 ^ 32
   \<and> (0 :: nat) < 2 \<and> nl \<notin> set ''/x'' \<and> nl \<notin> set ''/y''
   \<and> (\<exists>f. frame env_ok [''/x'', ''/y''] 2 50 False = Inr f
        \<and> frame_payload_len BigEndian f = 12
        \<and> Split (frame_block BigEndian f) nl = [''/x'', ''/y''])"
proof -
  have h1: "(2 :: nat) \<le> length [''/x'', ''/y'']" by simp
  have h2: "length (Join (take 2 [''/x'', ''/y'']) newline) + 15 < 2 ^ 32" by simp
  have h3: "(0 :: nat) < 2 \<and> (\<forall>p\<in>set (take 2 [''/x'', ''/y'']). nl \<notin> set p)" by simp
  have e: "buffer_endian env_ok = BigEndian" by (simp add: env_ok_def)
  from C1_frame_layout [OF h1 h2, of env_ok 50 False "[]"]
  obtain f where f: "frame env_ok [''/x'', ''/y''] 2 50 False = Inr f"
    "frame_payload_len BigEndian f = 4 + 3 + length (Join (take 2 [''/x'', ''/y'']) newline)"
    "0 < (2 :: nat) \<and> (\<forall>p\<in>set (take 2 [''/x'', ''/y'']). nl \<notin> set p) \<longrightarrow>
       Split (frame_block BigEndian f) nl = take 2 [''/x'', ''/y'']"
    unfolding e by blast
  from f(3) h3 have "Split (frame_block BigEndian f) nl = take 2 [''/x'', ''/y'']" by blast
  then have "Split (frame_block BigEndian f) nl = [''/x'', ''/y'']" by simp
  moreover from f(2) have "frame_payload_len BigEndian f = 12" by simp
  moreover have "nl \<notin> set ''/x'' \<and> nl \<notin> set ''/y''" by simp
  ultimately show ?thesis using h1 h2 f(1) by simp
qed

text \<open>
  C1 as it is stated fails in three ways: an entry with a newline splits into two, the
  empty batch splits into one empty entry, and a path block of \<open>2 ^ 32 - 7\<close> bytes gives no
  frame at all.
\<close>

theorem C1_split_counterexample:
  "frame env_ok [[CHR ''a'', nl, CHR ''b'']] 1 50 False =
     Inr [0, 0, 3, 236, 0, 0, 0, 10, 0, 0, 0, 3, 97, 10, 98, 0, 50, 0]
   \<and> Split (frame_block BigEndian
        [0, 0, 3, 236, 0, 0, 0, 10, 0, 0, 0, 3, 97, 10, 98, 0, 50, 0]) nl
      \<noteq> take 1 [[CHR ''a'', nl, CHR ''b'']]
   \<and> frame env_ok [] 0 50 False = Inr [0, 0, 3, 236, 0, 0, 0, 7, 0, 0, 0, 0, 0, 50, 0]
   \<and> Split (frame_block BigEndian [0, 0, 3, 236, 0, 0, 0, 7, 0, 0, 0, 0, 0, 50, 0]) nl
      \<noteq> take 0 []
   \<and> frame env_ok [replicate (2 ^ 32 - 7) (CHR ''a'')] 1 50 False = Inl Panic"
proof -
  have "Split (frame_block BigEndian
        [0, 0, 3, 236, 0, 0, 0, 10, 0, 0, 0, 3, 97, 10, 98, 0, 50, 0]) nl
      \<noteq> take 1 [[CHR ''a'', nl, CHR ''b'']]"
    by (simp add: frame_block_eval)
  moreover have "Split (frame_block BigEndian [0, 0, 3, 236, 0, 0, 0, 7, 0, 0, 0, 0, 0, 50, 0]) nl
      \<noteq> take 0 []"
    by (simp add: frame_block_empty)
  ultimately show ?thesis
    using frame_env_ok_eval frame_env_ok_empty frame_oversize [of env_ok "CHR ''a''" 50 False]
    by blast
qed

text \<open>
  C2. When every path has the mount point as a prefix, the batching loop does what sending
  the consecutive chunks of 10240 stripped paths does, one call of \<open>sendCommand\<close> for each
  chunk in the order of the input, up to the first fatal error. The chunks put together
  are the stripped paths; no chunk is empty or longer than 10240; every chunk but the last
  has 10240 entries. A run that succeeds has written the frames of all the chunks and has
  counted every path.
\<close>

theorem C2_batches_are_chunks:
  assumes "\<forall>p\<in>set paths. HasPrefix p mp"
  shows "send_batches env batchMax mp threads background paths tr =
      send_chunks env threads background
        (chunks batchMax (map (\<lambda>p. drop (length mp) p) paths)) tr
    \<and> concat (chunks batchMax (map (\<lambda>p. drop (length mp) p) paths)) =
        map (\<lambda>p. drop (length mp) p) paths
    \<and> (\<forall>c\<in>set (chunks batchMax (map (\<lambda>p. drop (length mp) p) paths)).
          c \<noteq> [] \<and> length c \<le> 10240)
    \<and> (\<forall>c\<in>set (butlast (chunks batchMax (map (\<lambda>p. drop (length mp) p) paths))).
          length c = 10240)
    \<and> (\<forall>tr'. send_batches env batchMax mp threads background paths tr = (tr', Inr ()) \<longrightarrow>
          map Inr (frames tr') =
            map Inr (frames tr) @
            map (\<lambda>c. frame env c (length c) threads background)
              (chunks batchMax (map (\<lambda>p. drop (length mp) p) paths))
          \<and> warmed tr' = warmed tr + length paths)"
proof -
  define cs where "cs = chunks batchMax (map (strip mp) paths)"
  have s: "map (\<lambda>p. drop (length mp) p) paths = map (strip mp) paths"
    by (simp add: strip_def)
  have u: "\<forall>p\<in>set paths. under_mount mp p" using assms by (simp add: under_mount_def)
  have eq: "send_batches env batchMax mp threads background paths tr =
      send_chunks env threads background cs tr"
    unfolding cs_def using batchMax_pos u by (rule send_batches_exact)
  have cc: "concat cs = map (strip mp) paths"
    unfolding cs_def using batchMax_pos by (rule concat_chunks)
  have sz: "\<forall>c\<in>set cs. c \<noteq> [] \<and> length c \<le> 10240"
    using chunks_sizes [of _ batchMax "map (strip mp) paths"]
    by (auto simp add: cs_def batchMax_def)
  have full: "\<forall>c\<in>set (butlast cs). length c = 10240"
    using chunks_butlast_full [of _ batchMax "map (strip mp) paths"]
    by (auto simp add: cs_def batchMax_def)
  have fr: "map Inr (frames tr') =
      map Inr (frames tr) @ map (\<lambda>c. frame env c (length c) threads background) cs
      \<and> warmed tr' = warmed tr + length paths"
    if "send_batches env batchMax mp threads background paths tr = (tr', Inr ())" for tr'
  proof -
    have "send_chunks env threads background cs tr = (tr', Inr ())" using that eq by simp
    from send_chunks_frames [OF this] show ?thesis by (simp add: cc)
  qed
  show ?thesis
    unfolding s cs_def [symmetric] using eq cc sz full fr by blast
qed

theorem C2_batches_are_chunks_witness:
  "HasPrefix ''/mnt/jfs/x'' ''/mnt/jfs''
   \<and> send_batches env_ok batchMax ''/mnt/jfs'' 50 False [''/mnt/jfs/x''] [] =
       ([EvWrite [0, 0, 3, 236, 0, 0, 0, 9, 0, 0, 0, 2, 47, 120, 0, 50, 0], EvRead,
         EvIncrBy 1, EvDone], Inr ())
   \<and> chunks batchMax (map (\<lambda>p. drop (length ''/mnt/jfs'') p) [''/mnt/jfs/x'']) = [[''/x'']]
   \<and> frames (fst (send_batches env_ok batchMax ''/mnt/jfs'' 50 False [''/mnt/jfs/x''] [])) =
       [[0, 0, 3, 236, 0, 0, 0, 9, 0, 0, 0, 2, 47, 120, 0, 50, 0]]"
proof -
  have h: "\<forall>p\<in>set [''/mnt/jfs/x'']. HasPrefix p ''/mnt/jfs''" by (simp add: HasPrefix_def)
  have c: "chunks batchMax (map (\<lambda>p. drop (length ''/mnt/jfs'') p) [''/mnt/jfs/x'']) = [[''/x'']]"
    by (simp add: chunks_batchMax_one)
  have "send_batches env_ok batchMax ''/mnt/jfs'' 50 False [''/mnt/jfs/x''] [] =
       ([EvWrite [0, 0, 3, 236, 0, 0, 0, 9, 0, 0, 0, 2, 47, 120, 0, 50, 0], EvRead,
         EvIncrBy 1, EvDone], Inr ())"
    using C2_batches_are_chunks [OF h, of env_ok 50 False "[]"]
    unfolding c send_chunks_env_ok_one by blast
  then show ?thesis using h c by simp
qed

text \<open>
  C3. From the absolute form of the first path, which must be rooted, the walk starts at
  the path when it is a directory and at its parent otherwise, and it ends: at some
  candidate \<open>k\<close>, all the candidates before it having been looked up with an inode other than
  1. The run fails with "not inside" when this candidate is \<open>/\<close>, fails when its inode
  cannot be looked up, and otherwise the candidate has inode 1 and is the mount point.
\<close>

theorem C3_mount_resolution:
  assumes "filepath_Abs env p = Some first" and "os_Stat env first = Some isdir"
    and "rooted first"
  shows "\<exists>k. passed env (if isdir then first else Dir first) k \<and>
    (if candidate (if isdir then first else Dir first) k = ''/'' then
       resolve env p tr =
         Some (tr @ [EvAbs p, EvStat first] @ lookups (if isdir then first else Dir first) k,
               Inl (NotInsideJuiceFS first))
     else
       (case GetFileInode env (candidate (if isdir then first else Dir first) k) of
          None \<Rightarrow> resolve env p tr =
            Some (tr @ [EvAbs p, EvStat first]
                    @ lookups (if isdir then first else Dir first) (Suc k),
                  Inl (FailedToLookupInode (candidate (if isdir then first else Dir first) k)))
        | Some i \<Rightarrow> i = 1 \<and> resolve env p tr =
            Some (tr @ [EvAbs p, EvStat first]
                    @ lookups (if isdir then first else Dir first) (Suc k),
                  Inr (candidate (if isdir then first else Dir first) k))))"
  using assms by (rule resolve_walk)

text \<open>
  The example of C3: \<open>/a/b\<close> has inode 1, \<open>/a/b/c\<close> has not, and the walk from the file
  \<open>/a/b/c/file.txt\<close> returns \<open>/a/b\<close>.
\<close>

theorem C3_mount_resolution_witness:
  "filepath_Abs env_abc ''/a/b/c/file.txt'' = Some ''/a/b/c/file.txt''
   \<and> os_Stat env_abc ''/a/b/c/file.txt'' = Some False
   \<and> rooted ''/a/b/c/file.txt''
   \<and> GetFileInode env_abc ''/a/b'' = Some 1
   \<and> GetFileInode env_abc ''/a/b/c'' = Some 7
   \<and> resolve env_abc ''/a/b/c/file.txt'' [] =
       Some ([EvAbs ''/a/b/c/file.txt'', EvStat ''/a/b/c/file.txt'',
              EvGetFileInode ''/a/b/c'', EvGetFileInode ''/a/b''], Inr ''/a/b'')"
proof -
  have a: "filepath_Abs env_abc ''/a/b/c/file.txt'' = Some ''/a/b/c/file.txt''"
    by (simp add: env_abc_fields)
  have s: "os_Stat env_abc ''/a/b/c/file.txt'' = Some False"
    by (simp add: env_abc_fields)
  have r: "rooted ''/a/b/c/file.txt''" by (simp add: rooted_def)
  have i: "GetFileInode env_abc ''/a/b'' = Some 1 \<and> GetFileInode env_abc ''/a/b/c'' = Some 7"
    by (simp add: env_abc_fields)
  from C3_mount_resolution [OF a s r, of "[]"]
  obtain k where k: "passed env_abc (Dir ''/a/b/c/file.txt'') k"
    by auto
  show ?thesis using a s r i resolve_abc k by blast
qed



text \<open>
  C5. A request that is not in the background reads one byte after the frame is written.
  The byte 0 is success; another byte is the fatal error that carries it; an error of the
  read, or a count other than 1, is fatal too.
\<close>

theorem C5_status_byte:
  assumes "frame env batch count threads False = Inr f"
    and "\<not> cf_Write env (nwrites tr)"
    and "cf_Read env (nreads tr) = (n, b, err)"
  shows "fst (sendCommand env tr batch count threads False) = tr @ [EvWrite f, EvRead]
    \<and> nreads (fst (sendCommand env tr batch count threads False)) = nreads tr + 1
    \<and> (\<not> err \<and> n = 1 \<and> b = 0 \<longrightarrow>
         snd (sendCommand env tr batch count threads False) = Inr ())
    \<and> (\<not> err \<and> n = 1 \<and> b \<noteq> 0 \<longrightarrow>
         snd (sendCommand env tr batch count threads False) = Inl (WarmUpFailed b))
    \<and> (err \<or> n \<noteq> 1 \<longrightarrow>
         snd (sendCommand env tr batch count threads False) = Inl (ReadMessage n))"
  using assms
  by (simp add: sendCommand_def Let_def nreads_def)

theorem C5_status_byte_witness:
  "frame env_ok [''/x''] 1 50 False =
     Inr [0, 0, 3, 236, 0, 0, 0, 9, 0, 0, 0, 2, 47, 120, 0, 50, 0]
   \<and> \<not> cf_Write env_ok (nwrites [])
   \<and> cf_Read env_ok (nreads []) = (1, 0, False)
   \<and> sendCommand env_ok [] [''/x''] 1 50 False =
       ([EvWrite [0, 0, 3, 236, 0, 0, 0, 9, 0, 0, 0, 2, 47, 120, 0, 50, 0], EvRead], Inr ())
   \<and> snd (sendCommand (env_ok\<lparr>cf_Read := \<lambda>k. (1, 7, False)\<rparr>) [] [''/x''] 1 50 False) =
       Inl (WarmUpFailed 7)
   \<and> snd (sendCommand (env_ok\<lparr>cf_Read := \<lambda>k. (0, 0, True)\<rparr>) [] [''/x''] 1 50 False) =
       Inl (ReadMessage 0)"
proof -
  let ?f = "[0, 0, 3, 236, 0, 0, 0, 9, 0, 0, 0, 2, 47, 120, 0, 50, 0] :: byte list"
  have w: "\<not> cf_Write env_ok (nwrites [])" by (simp add: env_ok_def)
  have r: "cf_Read env_ok (nreads []) = (1, 0, False)" by (simp add: env_ok_def)
  have f7: "frame (env_ok\<lparr>cf_Read := \<lambda>k. (1, 7, False)\<rparr>) [''/x''] 1 50 False = Inr ?f"
    by (simp only: frame_cf_Read frame_env_ok_x)
  have w7: "\<not> cf_Write (env_ok\<lparr>cf_Read := \<lambda>k. (1, 7, False)\<rparr>) (nwrites [])"
    by (simp add: env_ok_def)
  have r7: "cf_Read (env_ok\<lparr>cf_Read := \<lambda>k. (1, 7, False)\<rparr>) (nreads []) = (1, 7, False)"
    by simp
  have f0: "frame (env_ok\<lparr>cf_Read := \<lambda>k. (0, 0, True)\<rparr>) [''/x''] 1 50 False = Inr ?f"
    by (simp only: frame_cf_Read frame_env_ok_x)
  have w0: "\<not> cf_Write (env_ok\<lparr>cf_Read := \<lambda>k. (0, 0, True)\<rparr>) (nwrites [])"
    by (simp add: env_ok_def)
  have r0: "cf_Read (env_ok\<lparr>cf_Read := \<lambda>k. (0, 0, True)\<rparr>) (nreads []) = (0, 0, True)"
    by simp
  have "sendCommand env_ok [] [''/x''] 1 50 False = ([EvWrite ?f, EvRead], Inr ())"
    using C5_status_byte [OF frame_env_ok_x w r]
    by (cases "sendCommand env_ok [] [''/x''] 1 50 False") simp
  moreover have "snd (sendCommand (env_ok\<lparr>cf_Read := \<lambda>k. (1, 7, False)\<rparr>) [] [''/x''] 1 50 False) =
       Inl (WarmUpFailed 7)"
    using C5_status_byte [OF f7 w7 r7] by simp
  moreover have "snd (sendCommand (env_ok\<lparr>cf_Read := \<lambda>k. (0, 0, True)\<rparr>) [] [''/x''] 1 50 False) =
       Inl (ReadMessage 0)"
    using C5_status_byte [OF f0 w0 r0] by simp
  ultimately show ?thesis using frame_env_ok_x w r by blast
qed

text \<open>
  C6. A request in the background returns once the frame is written: it reads nothing from
  the control file, and its result does not depend on what a read would return.
\<close>

theorem C6_background_no_read:
  assumes "frame env batch count threads True = Inr f"
    and "\<not> cf_Write env (nwrites tr)"
  shows "sendCommand env tr batch count threads True =
      (tr @ [EvWrite f, EvInfo (WarmUpInBackground count)], Inr ())
    \<and> nreads (fst (sendCommand env tr batch count threads True)) = nreads tr
    \<and> sendCommand (env\<lparr>cf_Read := r\<rparr>) tr batch count threads True =
        sendCommand env tr batch count threads True"
proof -
  have "frame (env\<lparr>cf_Read := r\<rparr>) batch count threads True =
        frame env batch count threads True"
  proof -
    have a: "buffer_endian (env\<lparr>cf_Read := r\<rparr>) = buffer_endian env" by simp
    have b: "meta_FillCache (env\<lparr>cf_Read := r\<rparr>) = meta_FillCache env" by simp
    show ?thesis unfolding frame_def a b ..
  qed
  then show ?thesis using assms
    by (simp add: sendCommand_def Let_def nreads_def)
qed

theorem C6_background_no_read_witness:
  "frame env_ok [''/x''] 1 50 True =
     Inr [0, 0, 3, 236, 0, 0, 0, 9, 0, 0, 0, 2, 47, 120, 0, 50, 1]
   \<and> \<not> cf_Write env_ok (nwrites [])
   \<and> sendCommand env_ok [] [''/x''] 1 50 True =
       ([EvWrite [0, 0, 3, 236, 0, 0, 0, 9, 0, 0, 0, 2, 47, 120, 0, 50, 1],
         EvInfo (WarmUpInBackground 1)], Inr ())
   \<and> sendCommand (env_ok\<lparr>cf_Read := \<lambda>k. (0, 9, True)\<rparr>) [] [''/x''] 1 50 True =
       sendCommand env_ok [] [''/x''] 1 50 True"
proof -
  have w: "\<not> cf_Write env_ok (nwrites [])" by (simp add: env_ok_def)
  show ?thesis
    using C6_background_no_read [OF frame_env_ok_x_bg w, of "\<lambda>k. (0, 9, True)"]
      frame_env_ok_x_bg w
    by simp
qed

text \<open>
  C7, as amended. With the mount point \<open>/mnt/jfs\<close>, the capacity 2 and a control file that
  accepts the frame, the paths \<open>/mnt/jfs/x\<close>, \<open>/mnt/jfs/y\<close> and \<open>/other/z\<close> give one frame,
  whose batch is \<open>/x\<close> and \<open>/y\<close>: the mount point is stripped and the separator after it
  stays. The path \<open>/other/z\<close> is skipped with a warning and the count of warmed paths is 2.
\<close>

theorem C7_example_scenario:
  assumes "\<not> cf_Write env 0"
    and "background \<or> cf_Read env 0 = (1, 0, False)"
  shows "send_batches env 2 ''/mnt/jfs'' threads background
           [''/mnt/jfs/x'', ''/mnt/jfs/y'', ''/other/z''] [] =
      ([EvWrite (layout (buffer_endian env) (meta_FillCache env) (''/x'' @ newline @ ''/y'')
                  threads background),
        if background then EvInfo (WarmUpInBackground 2) else EvRead,
        EvIncrBy 2,
        EvWarn ''/other/z'' ''/mnt/jfs'',
        EvDone], Inr ())
    \<and> frame env [''/x'', ''/y''] 2 threads background =
        Inr (layout (buffer_endian env) (meta_FillCache env) (''/x'' @ newline @ ''/y'')
              threads background)
    \<and> Split (frame_block (buffer_endian env)
               (layout (buffer_endian env) (meta_FillCache env) (''/x'' @ newline @ ''/y'')
                  threads background)) nl = [''/x'', ''/y'']
    \<and> warmed (fst (send_batches env 2 ''/mnt/jfs'' threads background
                      [''/mnt/jfs/x'', ''/mnt/jfs/y'', ''/other/z''] [])) = 2
    \<and> warned (fst (send_batches env 2 ''/mnt/jfs'' threads background
                      [''/mnt/jfs/x'', ''/mnt/jfs/y'', ''/other/z''] [])) = [''/other/z'']"
proof -
  have run: "send_batches env 2 ''/mnt/jfs'' threads background
           [''/mnt/jfs/x'', ''/mnt/jfs/y'', ''/other/z''] [] =
      ([EvWrite (layout (buffer_endian env) (meta_FillCache env) (''/x'' @ newline @ ''/y'')
                  threads background),
        if background then EvInfo (WarmUpInBackground 2) else EvRead,
        EvIncrBy 2,
        EvWarn ''/other/z'' ''/mnt/jfs'',
        EvDone], Inr ())"
    using example_run [OF assms, of threads] by (simp only: example_paths_def)
  have fr: "frame env [''/x'', ''/y''] 2 threads background =
        Inr (layout (buffer_endian env) (meta_FillCache env) (''/x'' @ newline @ ''/y'')
              threads background)"
    using frame_layout [of 2 "[''/x'', ''/y'']" env threads background] by simp
  have bl: "frame_block (buffer_endian env)
               (layout (buffer_endian env) (meta_FillCache env) (''/x'' @ newline @ ''/y'')
                  threads background) = ''/x'' @ newline @ ''/y''"
    by (rule frame_block_layout) simp
  have sp: "Split (''/x'' @ newline @ ''/y'') nl = [''/x'', ''/y'']" by simp
  show ?thesis
    unfolding run bl sp using fr by (cases background) simp_all
qed

theorem C7_example_scenario_witness:
  "\<not> cf_Write env_ok 0
   \<and> cf_Read env_ok 0 = (1, 0, False)
   \<and> send_batches env_ok 2 ''/mnt/jfs'' 50 False
        [''/mnt/jfs/x'', ''/mnt/jfs/y'', ''/other/z''] [] =
      ([EvWrite [0, 0, 3, 236, 0, 0, 0, 12, 0, 0, 0, 5, 47, 120, 10, 47, 121, 0, 50, 0],
        EvRead, EvIncrBy 2, EvWarn ''/other/z'' ''/mnt/jfs'', EvDone], Inr ())"
proof -
  have w: "\<not> cf_Write env_ok 0" by (rule env_ok_write)
  have r: "False \<or> cf_Read env_ok 0 = (1, 0, False)" by (simp add: env_ok_read)
  have e: "buffer_endian env_ok = BigEndian" "meta_FillCache env_ok = 1004"
    by (simp_all add: env_ok_def)
  show ?thesis
    using C7_example_scenario [OF w r, of 50] w r
    unfolding e layout_example by simp
qed

text \<open>
  C7 as it is stated fails: the frame written is not the frame of the batch \<open>x\<close>, \<open>y\<close>.
\<close>

theorem C7_batch_counterexample:
  "frame env_ok [''x'', ''y''] 2 50 False =
     Inr [0, 0, 3, 236, 0, 0, 0, 10, 0, 0, 0, 3, 120, 10, 121, 0, 50, 0]
   \<and> frames (fst (send_batches env_ok 2 ''/mnt/jfs'' 50 False
                    [''/mnt/jfs/x'', ''/mnt/jfs/y'', ''/other/z''] []))
      \<noteq> [[0, 0, 3, 236, 0, 0, 0, 10, 0, 0, 0, 3, 120, 10, 121, 0, 50, 0]]"
proof -
  have w: "\<not> cf_Write env_ok 0" by (rule env_ok_write)
  have r: "False \<or> cf_Read env_ok 0 = (1, 0, False)" by (simp add: env_ok_read)
  have e: "buffer_endian env_ok = BigEndian" "meta_FillCache env_ok = 1004"
    by (simp_all add: env_ok_def)
  have "frames (fst (send_batches env_ok 2 ''/mnt/jfs'' 50 False
                    [''/mnt/jfs/x'', ''/mnt/jfs/y'', ''/other/z''] [])) =
        [[0, 0, 3, 236, 0, 0, 0, 12, 0, 0, 0, 5, 47, 120, 10, 47, 121, 0, 50, 0]]"
    using example_run [OF w r, of 50]
    unfolding e layout_example example_paths_def by simp
  then show ?thesis using frame_env_ok_xy by simp
qed

text \<open>
  C8. With no argument and no line of the file that is not blank, the file having been
  read without error, the run logs that there is nothing to warm up and succeeds; its
  trace holds the opening of the file, if one is named, and nothing else: no lookup of a
  path, no control file, no frame and no read.
\<close>

theorem C8_empty_input:
  assumes "file_read env ctx" and "combined env ctx = []"
  shows "warmup env ctx =
    Some ((if ctx_file ctx = [] then [] else [EvOpen (ctx_file ctx)])
            @ [EvInfo NothingToWarmUp], Inr ())"
  using assms by (simp add: warmup_def read_paths_ok)

theorem C8_empty_input_witness:
  "file_read env_ok ctx_empty
   \<and> combined env_ok ctx_empty = []
   \<and> warmup env_ok ctx_empty = Some ([EvOpen ''list.txt'', EvInfo NothingToWarmUp], Inr ())"
proof -
  have f: "file_read env_ok ctx_empty"
    by (simp add: file_read_def env_ok_def ctx_empty_def)
  have c: "combined env_ok ctx_empty = []"
    by (simp add: combined_def env_ok_def ctx_empty_def trim_blanks_def)
  have n: "ctx_file ctx_empty = ''list.txt''" by (simp add: ctx_empty_def)
  show ?thesis using C8_empty_input [OF f c] f c unfolding n by simp
qed

text \<open>
  C9. The 2 bytes of the thread count hold the requested count modulo \<open>2 ^ 16\<close>: a larger
  count is cut, and the frame is built all the same.
\<close>

theorem C9_thread_count_truncated:
  assumes "count \<le> length batch"
    and "length (Join (take count batch) newline) + 15 < 2 ^ 32"
  shows "\<exists>f. frame env batch count threads background = Inr f
    \<and> take 2 (drop (12 + length (Join (take count batch) newline)) f)
        = enc16 (buffer_endian env) (ucast threads)
    \<and> frame_threads (buffer_endian env) f = unat threads mod 2 ^ 16"
proof -
  define block where "block = Join (take count batch) newline"
  define e where "e = buffer_endian env"
  define f where "f = layout e (meta_FillCache env) block threads background"
  have fr: "frame env batch count threads background = Inr f"
    using frame_layout [OF assms] by (simp add: f_def block_def e_def)
  have small: "length block < 2 ^ 32"
    using assms(2) by (simp add: block_def)
  have "take 2 (drop (12 + length block) f) = enc16 e (ucast threads)"
    by (simp add: f_def layout_def length_enc32 length_enc16)
  moreover have "frame_threads e f = unat threads mod 2 ^ 16"
    using small unfolding f_def by (rule frame_threads_layout)
  ultimately show ?thesis
    using fr unfolding block_def [symmetric] e_def [symmetric]
    by (intro exI [of _ f]) simp
qed

theorem C9_thread_count_truncated_witness:
  "(1 :: nat) \<le> length [''/x'']
   \<and> length (Join (take 1 [''/x'']) newline) + 15 < 2 ^ 32
   \<and> (\<exists>f. frame env_ok [''/x''] 1 65586 False = Inr f \<and> frame_threads BigEndian f = 50)"
proof -
  have h1: "(1 :: nat) \<le> length [''/x'']" by simp
  have h2: "length (Join (take 1 [''/x'']) newline) + 15 < 2 ^ 32" by simp
  have e: "buffer_endian env_ok = BigEndian" by (simp add: env_ok_def)
  from C9_thread_count_truncated [OF h1 h2, of env_ok 65586 False]
  obtain f where f: "frame env_ok [''/x''] 1 65586 False = Inr f"
    "frame_threads BigEndian f = unat (65586 :: 64 word) mod 2 ^ 16"
    unfolding e by blast
  from f(2) have "frame_threads BigEndian f = 50" by simp
  then show ?thesis using h1 h2 f(1) by blast
qed



end
